theory Spec2Isabelle
  imports Complex_Main "HOL-Library.AList"
begin

section \<open>Part planning (uploadMultipart, the first two statements)\<close>

text \<open>
  JavaScript numbers are modelled exactly: integers as \<open>nat\<close> or \<open>int\<close>, the result of a
  division as \<open>rat\<close>. \<open>Math.ceil\<close> is the ceiling, \<open>Math.floor\<close> the floor and
  \<open>Math.round\<close> rounds to the nearest integer, a tie going up.
\<close>

record options =
  concurrencyLimit :: nat
  partMinSizeBytes :: nat
  maxNumParts :: nat

record File =
  file_name :: string
  file_size :: nat
  file_type :: string

definition ONE_MB_IN_BYTES :: nat where
  "ONE_MB_IN_BYTES = 1024 * 1024"

definition defaultOptions :: options where
  "defaultOptions =
     \<lparr>concurrencyLimit = 6, partMinSizeBytes = 10 * ONE_MB_IN_BYTES, maxNumParts = 96\<rparr>"

definition Math_round :: "rat \<Rightarrow> int" where
  "Math_round x = \<lfloor>x + 1 / 2\<rfloor>"

definition Math_floor :: "rat \<Rightarrow> int" where
  "Math_floor x = \<lfloor>x\<rfloor>"

text \<open>
  \<open>const partSizeInBytes = this.options.partMinSizeBytes + file.size / this.options.maxNumParts\<close>
  and \<open>const numParts = Math.ceil(file.size / partSizeInBytes)\<close>. Both presuppose a positive
  \<open>maxNumParts\<close> and a positive part size (JavaScript would give \<open>Infinity\<close> or \<open>NaN\<close>
  otherwise, HOL gives 0 for a division by 0).
\<close>

definition uploadMultipart_partSizeInBytes :: "options \<Rightarrow> File \<Rightarrow> rat" where
  "uploadMultipart_partSizeInBytes opts f =
     of_nat (partMinSizeBytes opts) + of_nat (file_size f) / of_nat (maxNumParts opts)"

definition uploadMultipart_numParts :: "options \<Rightarrow> File \<Rightarrow> int" where
  "uploadMultipart_numParts opts f =
     \<lceil>of_nat (file_size f) / uploadMultipart_partSizeInBytes opts f\<rceil>"

section \<open>The concurrency throttle (util.ts, promiseFnThrottle)\<close>

text \<open>
  \<open>promiseFnThrottle(fn, executing, concurrencyLimit)\<close> is an async function over a shared
  \<open>Set\<close> of promises. Its state is modelled explicitly. A call and the task it may launch
  share one number.

  \<^item> \<open>executing\<close> is the shared set, in insertion order.
  \<^item> \<open>waiting\<close> holds the calls suspended at \<open>await Promise.race(executing)\<close>, each with the
    promises its race was started over, in the order the races were started.
  \<^item> \<open>invoked\<close>, \<open>fulfilled\<close>, \<open>rejected\<close> record which factories \<open>fn\<close> were called and how
    their promises settled; \<open>dropped\<close> records the calls whose race rejected, so that the
    \<open>await\<close> threw, the call's own promise rejected and \<open>fn\<close> was never called.
\<close>

record throttle =
  executing :: "nat list"
  waiting :: "(nat \<times> nat list) list"
  invoked :: "nat list"
  fulfilled :: "nat list"
  rejected :: "nat list"
  dropped :: "nat list"

definition throttle_init :: throttle where
  "throttle_init =
     \<lparr>executing = [], waiting = [], invoked = [], fulfilled = [], rejected = [], dropped = []\<rparr>"

text \<open>The tasks whose factory was called and whose promise has not settled.\<close>

definition outstanding :: "throttle \<Rightarrow> nat list" where
  "outstanding s = [k \<leftarrow> invoked s. k \<notin> set (fulfilled s) \<and> k \<notin> set (rejected s)]"

text \<open>
  \<open>const promise = fn(); executing.add(promise); promise.then(() => executing.delete(promise))\<close>.
\<close>

definition launch :: "nat \<Rightarrow> throttle \<Rightarrow> throttle" where
  "launch k s = s\<lparr>executing := executing s @ [k], invoked := invoked s @ [k]\<rparr>"

text \<open>
  One evaluation of the loop head \<open>while (executing.size >= concurrencyLimit)\<close> by call \<open>k\<close>,
  up to its next suspension: on entry, and again each time its race fulfils. A race over a
  set that already holds a rejected promise rejects at once.
\<close>

definition promiseFnThrottle :: "nat \<Rightarrow> nat \<Rightarrow> throttle \<Rightarrow> throttle" where
  "promiseFnThrottle limit k s =
     (if limit \<le> length (executing s) then
        (if list_ex (\<lambda>p. p \<in> set (rejected s)) (executing s)
         then s\<lparr>dropped := dropped s @ [k]\<rparr>
         else s\<lparr>waiting := waiting s @ [(k, executing s)]\<rparr>)
      else launch k s)"

fun resume_all :: "nat \<Rightarrow> nat list \<Rightarrow> throttle \<Rightarrow> throttle" where
  "resume_all limit [] s = s"
| "resume_all limit (k # ks) s =
     resume_all limit ks (promiseFnThrottle limit k s)"

text \<open>
  Promise \<open>p\<close> fulfils: its \<open>then\<close> callback deletes it from the set, then every call whose
  race contains \<open>p\<close> resumes, in the order the races were started.
\<close>

definition fulfil :: "nat \<Rightarrow> nat \<Rightarrow> throttle \<Rightarrow> throttle" where
  "fulfil limit p s =
     (if p \<in> set (outstanding s) then
        resume_all limit [fst w. w \<leftarrow> waiting s, p \<in> set (snd w)]
          (s\<lparr>fulfilled := fulfilled s @ [p],
             executing := removeAll p (executing s),
             waiting := [w \<leftarrow> waiting s. p \<notin> set (snd w)]\<rparr>)
      else s)"

text \<open>
  Promise \<open>p\<close> rejects: \<open>then\<close> was given no rejection handler, so \<open>p\<close> stays in the set;
  every race that contains \<open>p\<close> rejects, and the calls awaiting those races throw.
\<close>

definition reject :: "nat \<Rightarrow> throttle \<Rightarrow> throttle" where
  "reject p s =
     (if p \<in> set (outstanding s) then
        s\<lparr>rejected := rejected s @ [p],
          waiting := [w \<leftarrow> waiting s. p \<notin> set (snd w)],
          dropped := dropped s @ [fst w. w \<leftarrow> waiting s, p \<in> set (snd w)]\<rparr>
      else s)"

text \<open>
  A run of the throttle on its own: calls are numbered in submission order, and a settle
  event for a task that is not outstanding changes nothing.
\<close>

datatype throttle_event = Submit | Fulfil nat | Reject nat

fun throttle_step :: "nat \<Rightarrow> nat \<times> throttle \<Rightarrow> throttle_event \<Rightarrow> nat \<times> throttle" where
  "throttle_step limit (n, s) Submit = (Suc n, promiseFnThrottle limit n s)"
| "throttle_step limit (n, s) (Fulfil p) = (n, fulfil limit p s)"
| "throttle_step limit (n, s) (Reject p) = (n, reject p s)"

definition throttle_run :: "nat \<Rightarrow> throttle_event list \<Rightarrow> nat \<times> throttle" where
  "throttle_run limit evs = foldl (throttle_step limit) (0, throttle_init) evs"

section \<open>The persisted store (util.ts: getLS, getAndParseLS, setLS, removeLS, cleanUpETags)\<close>

datatype error =
    SyntaxError
  | TypeError
  | CreateFailed
  | CreateIncomplete
  | SignFailed nat
  | PutStatusFailed
  | PutNetworkFailed nat
  | PartsFailed
  | CompleteFailed

record UploadPartResponse =
  ETag :: "string option"
  PartNumber :: nat

text \<open>
  A field that may be \<open>undefined\<close> or \<open>null\<close> in the parsed JSON is an \<open>option\<close>. A missing
  numeric field is the number 0: every test the code makes on \<open>totalParts\<close> and
  \<open>partSizeInBytes\<close> (\<open>totalParts > 0\<close>, truthiness, a loop bound) gives the same answer for
  \<open>undefined\<close> as for 0.
\<close>

record LocalUploadRecord =
  originalFilename :: string
  totalFileSizeInBytes :: nat
  totalParts :: int
  partSizeInBytes :: rat
  finishedParts :: "UploadPartResponse list option"
  uploadId :: "string option"
  s3Filename :: "string option"

text \<open>
  \<open>localStorage\<close> maps a key to a string. \<open>JSON.parse\<close> and \<open>JSON.stringify\<close> are the
  platform's, not the repository's: a stored string is kept as what \<open>JSON.parse\<close> makes of
  it, either a string that is not JSON (\<open>JSON.parse\<close> throws), the JSON text \<open>null\<close>, or the
  JSON text of a value.
\<close>

datatype 'v stored = NotJson string | JsonNull | Json 'v

fun JSON_parse :: "'v stored \<Rightarrow> error + 'v option" where
  "JSON_parse (NotJson s) = Inl SyntaxError"
| "JSON_parse JsonNull = Inr None"
| "JSON_parse (Json v) = Inr (Some v)"

definition getLS :: "(string \<rightharpoonup> 'v stored) \<Rightarrow> string \<Rightarrow> 'v stored option" where
  "getLS ls k = ls k"

text \<open>
  \<open>if (!dataString) return null\<close> covers the absent key and the empty string; the
  \<open>try\<close>/\<open>catch\<close> turns a throwing \<open>JSON.parse\<close> into \<open>null\<close>. \<open>Inl\<close> would be an exception
  leaving the function.
\<close>

definition getAndParseLS :: "(string \<rightharpoonup> 'v stored) \<Rightarrow> string \<Rightarrow> error + 'v option" where
  "getAndParseLS ls k =
     (case getLS ls k of
        None \<Rightarrow> Inr None
      | Some (NotJson []) \<Rightarrow> Inr None
      | Some dataString \<Rightarrow>
          (case JSON_parse dataString of
             Inr v \<Rightarrow> Inr v
           | Inl err \<Rightarrow> Inr None))"

definition setLS :: "(string \<rightharpoonup> 'v stored) \<Rightarrow> string \<Rightarrow> 'v \<Rightarrow> (string \<rightharpoonup> 'v stored)" where
  "setLS ls k data = ls(k \<mapsto> Json data)"

definition removeLS :: "(string \<rightharpoonup> 'v stored) \<Rightarrow> string \<Rightarrow> (string \<rightharpoonup> 'v stored)" where
  "removeLS ls k = ls(k := None)"

text \<open>JavaScript truthiness of a string that may be missing.\<close>

fun truthy :: "string option \<Rightarrow> bool" where
  "truthy None = False"
| "truthy (Some s) = (s \<noteq> [])"

definition cleanUpETags :: "UploadPartResponse list \<Rightarrow> UploadPartResponse list" where
  "cleanUpETags arr = filter (\<lambda>obj. truthy (ETag obj)) arr"

section \<open>The uploader instance (client/index.ts, class MultipartUploader)\<close>

datatype event =
    UploadStarted
  | UploadResumed int LocalUploadRecord
  | UploadCreated "string option" "string option"
  | UploadPartStarted nat
  | UploadPartSignedUrl nat string
  | UploadPartSuccess nat
  | TotalProgress int
  | UploadComplete "string option"
  | UploadFailed error "LocalUploadRecord option"
  | Error error

text \<open>
  The instance fields the upload methods read and write, together with the browser's
  \<open>localStorage\<close> and the log of what was emitted.
\<close>

record uploader =
  localStorage :: "string \<rightharpoonup> LocalUploadRecord stored"
  emitted :: "event list"
  partsUploadProgress :: "(nat \<times> int) list"
  totalUploadProgress :: int
  uploadInProgress :: bool

text \<open>
  Modelled from the spec: \<open>event-emitter.js\<close>, the base class of \<open>MultipartUploader\<close>, is not
  among the sources. The spec's EventBus is a publish/subscribe channel; \<open>emit\<close> appends the
  notification to the log that a subscriber to every channel would see.
\<close>

definition emit :: "event \<Rightarrow> uploader \<Rightarrow> uploader" where
  "emit e s = s\<lparr>emitted := emitted s @ [e]\<rparr>"

definition video_key :: "string \<Rightarrow> string" where
  "video_key fileName = ''video|'' @ fileName"

record ProgressEvent =
  lengthComputable :: bool
  loaded :: nat
  total :: nat

text \<open>
  \<open>xhr.upload.onprogress\<close> in \<open>uploadPartToS3\<close>. \<open>partsUploadProgress\<close> is an object keyed by
  part number, so an association list updated in place; \<open>Object.values(...).reduce\<close> sums
  its values. The browser fires upload progress events for a non-empty body only, so
  \<open>total\<close> is positive whenever the length is computable.
\<close>

definition onprogress :: "nat \<Rightarrow> int \<Rightarrow> ProgressEvent \<Rightarrow> uploader \<Rightarrow> uploader" where
  "onprogress partNumber totalParts' ev s =
     (if \<not> lengthComputable ev then s
      else
        let percentCompleted = Math_round (of_nat (loaded ev * 100) / of_nat (total ev));
            s1 = s\<lparr>partsUploadProgress :=
                     AList.update partNumber percentCompleted (partsUploadProgress s)\<rparr>;
            totalProgress =
              Math_floor (of_int (sum_list (map snd (partsUploadProgress s1))) / of_int totalParts')
        in if totalProgress > totalUploadProgress s1
           then emit (TotalProgress totalProgress) (s1\<lparr>totalUploadProgress := totalProgress\<rparr>)
           else s1)"

text \<open>\<open>eTag.replace(/^"|"$/g, '')\<close>: one leading and one trailing quote character go.\<close>

definition strip_quotes :: "string \<Rightarrow> string" where
  "strip_quotes eTag =
     (let t = (case eTag of c # cs \<Rightarrow> if c = CHR 0x22 then cs else eTag | [] \<Rightarrow> [])
      in if t \<noteq> [] \<and> last t = CHR 0x22 then butlast t else t)"

section \<open>The parts phase (loopMultipartParts, the part tasks, Promise.all)\<close>

text \<open>
  What the outside world does to a launched part task, in the order it happens. A task
  first awaits the signing call (\<open>uploadMultipartPart\<close>), then the \<open>PUT\<close> of
  \<open>uploadPartToS3\<close>. \<open>Onload k status eTag\<close> carries the status and the \<open>ETag\<close> response
  header. An event for a task that is not in the matching phase changes nothing.
\<close>

datatype part_event =
    SignFails nat
  | SignOk nat string
  | Progress nat ProgressEvent
  | Onload nat nat "string option"
  | Onerror nat

text \<open>\<open>Promise.all(promisesArr)\<close> as the awaiting upload method sees it.\<close>

datatype promise_all = AllPending | AllRejected | AllFulfilled "UploadPartResponse list"

record parts_run =
  up :: uploader
  pool :: throttle
  putting :: "nat list"
  responses :: "UploadPartResponse list"
  aggregate :: promise_all

definition signing :: "nat \<Rightarrow> parts_run \<Rightarrow> bool" where
  "signing k r \<longleftrightarrow> k \<in> set (outstanding (pool r)) \<and> k \<notin> set (putting r)"

definition in_flight :: "nat \<Rightarrow> parts_run \<Rightarrow> bool" where
  "in_flight k r \<longleftrightarrow> k \<in> set (outstanding (pool r)) \<and> k \<in> set (putting r)"

text \<open>
  The factory passed to the throttle starts with \<open>this.emit('uploadPartStarted', partNumber + 1)\<close>:
  one notification for each factory the throttle has called since \<open>before\<close>.
\<close>

definition started :: "throttle \<Rightarrow> throttle \<Rightarrow> uploader \<Rightarrow> uploader" where
  "started before after u =
     foldl (\<lambda>u k. emit (UploadPartStarted k) u) u (drop (length (invoked before)) (invoked after))"

text \<open>
  The value of \<open>Promise.all\<close>: the tasks' values in the order of \<open>promisesArr\<close>, whatever the
  order in which they arrived; the task of part \<open>k\<close> resolves with \<open>PartNumber = k\<close>.
\<close>

fun collect :: "nat list \<Rightarrow> UploadPartResponse list \<Rightarrow> UploadPartResponse list option" where
  "collect [] rs = Some []"
| "collect (k # ks) rs =
     (case find (\<lambda>r. PartNumber r = k) rs of
        None \<Rightarrow> None
      | Some r \<Rightarrow> map_option ((#) r) (collect ks rs))"

text \<open>
  \<open>await Promise.all(promisesArr)\<close> with its \<open>catch\<close> block, which is the same in
  \<open>uploadMultipart\<close> and \<open>uploadUnfinishedMultipart\<close>: the first rejected promise rejects the
  aggregate, and the block runs then, while the other tasks go on.
\<close>

definition Promise_all :: "nat list \<Rightarrow> parts_run \<Rightarrow> parts_run" where
  "Promise_all promisesArr r =
     (case aggregate r of
        AllPending \<Rightarrow>
          if list_ex (\<lambda>k. k \<in> set (rejected (pool r)) \<or> k \<in> set (dropped (pool r))) promisesArr
          then r\<lparr>aggregate := AllRejected,
                 up := emit (Error PartsFailed) ((up r)\<lparr>uploadInProgress := False\<rparr>)\<rparr>
          else (case collect promisesArr (responses r) of
                  Some resolvedArr \<Rightarrow> r\<lparr>aggregate := AllFulfilled resolvedArr\<rparr>
                | None \<Rightarrow> r)
      | _ \<Rightarrow> r)"

text \<open>
  The end of \<open>xhr.onload\<close> on success: the persisted record, if there is one, gets the
  response appended. A record without a \<open>finishedParts\<close> array makes \<open>push\<close> throw, after
  the promise was resolved.
\<close>

definition onload_record :: "string \<Rightarrow> UploadPartResponse \<Rightarrow> uploader \<Rightarrow> uploader" where
  "onload_record fileName response u =
     (case getAndParseLS (localStorage u) (video_key fileName) of
        Inr (Some localStorageRecord) \<Rightarrow>
          (case finishedParts localStorageRecord of
             Some ps \<Rightarrow>
               u\<lparr>localStorage := setLS (localStorage u) (video_key fileName)
                    (localStorageRecord\<lparr>finishedParts := Some (ps @ [response])\<rparr>)\<rparr>
           | None \<Rightarrow> u)
      | _ \<Rightarrow> u)"

fun part_event_handler :: "nat \<Rightarrow> string \<Rightarrow> int \<Rightarrow> parts_run \<Rightarrow> part_event \<Rightarrow> parts_run" where
  "part_event_handler limit fileName totalParts' r (SignFails k) =
     (if signing k r
      then r\<lparr>up := emit (Error (SignFailed k)) (up r), pool := reject k (pool r)\<rparr>
      else r)"
| "part_event_handler limit fileName totalParts' r (SignOk k signedUrl) =
     (if signing k r
      then r\<lparr>up := emit (UploadPartSignedUrl k signedUrl) (up r), putting := putting r @ [k]\<rparr>
      else r)"
| "part_event_handler limit fileName totalParts' r (Progress k ev) =
     (if in_flight k r then r\<lparr>up := onprogress k totalParts' ev (up r)\<rparr> else r)"
| "part_event_handler limit fileName totalParts' r (Onload k status eTag) =
     (if in_flight k r then
        (if 200 \<le> status \<and> status < 300 then
           let response = \<lparr>ETag = map_option strip_quotes eTag, PartNumber = k\<rparr>;
               u = onload_record fileName response (emit (UploadPartSuccess k) (up r));
               pool' = fulfil limit k (pool r)
           in r\<lparr>up := started (pool r) pool' u, pool := pool',
                 responses := responses r @ [response]\<rparr>
         else r\<lparr>pool := reject k (pool r)\<rparr>)
      else r)"
| "part_event_handler limit fileName totalParts' r (Onerror k) =
     (if in_flight k r then
        (case getAndParseLS (localStorage (up r)) (video_key fileName) of
           Inr localStorageRecord \<Rightarrow>
             r\<lparr>up := emit (UploadFailed (PutNetworkFailed k) localStorageRecord) (up r),
               pool := reject k (pool r)\<rparr>
         | Inl err \<Rightarrow> r)
      else r)"

definition parts_step ::
  "nat \<Rightarrow> string \<Rightarrow> int \<Rightarrow> nat list \<Rightarrow> parts_run \<Rightarrow> part_event \<Rightarrow> parts_run" where
  "parts_step limit fileName totalParts' promisesArr r e =
     Promise_all promisesArr (part_event_handler limit fileName totalParts' r e)"

definition run_parts ::
  "nat \<Rightarrow> string \<Rightarrow> int \<Rightarrow> nat list \<Rightarrow> part_event list \<Rightarrow> parts_run \<Rightarrow> parts_run" where
  "run_parts limit fileName totalParts' promisesArr evs r0 =
     foldl (parts_step limit fileName totalParts' promisesArr) (Promise_all promisesArr r0) evs"

text \<open>
  The loop of \<open>loopMultipartParts\<close>: the 1-based numbers of the parts that have no entry in
  \<open>finishedPartsLookup\<close>, in ascending order. (The byte range of each part plays no role in
  what follows and is left out.)
\<close>

definition pending_parts :: "int \<Rightarrow> (nat \<times> UploadPartResponse) list \<Rightarrow> nat list" where
  "pending_parts totalParts' finishedPartsLookup =
     [k \<leftarrow> map Suc [0..<nat totalParts']. map_of finishedPartsLookup k = None]"

definition loopMultipartParts ::
  "nat \<Rightarrow> int \<Rightarrow> (nat \<times> UploadPartResponse) list \<Rightarrow> uploader \<Rightarrow> parts_run" where
  "loopMultipartParts limit totalParts' finishedPartsLookup u =
     (let u1 = (if finishedPartsLookup = [] then u\<lparr>partsUploadProgress := []\<rparr> else u);
          pool' = foldl (\<lambda>th k. promiseFnThrottle limit k th) throttle_init
                    (pending_parts totalParts' finishedPartsLookup)
      in \<lparr>up = started throttle_init pool' u1, pool = pool', putting = [], responses = [],
           aggregate = AllPending\<rparr>)"

section \<open>uploadMultipart and uploadUnfinishedMultipart\<close>

record CreateMultipartUploadResponse =
  created_uploadId :: "string option"
  created_s3Filename :: "string option"

record CompleteMultipartUploadRequest =
  complete_uploadId :: "string option"
  complete_s3Filename :: "string option"
  parts :: "UploadPartResponse list"

record CompleteMultipartUploadResponse =
  completed_s3Filename :: "string option"

text \<open>
  The answers of the backend and of S3 during one call of \<open>uploadMultipart\<close>. \<open>Inl\<close> is a
  \<open>fetch\<close> or \<open>response.json()\<close> that throws.
\<close>

record env =
  create_response :: "error + CreateMultipartUploadResponse"
  part_events :: "part_event list"
  complete_response :: "error + CompleteMultipartUploadResponse"

text \<open>
  How the promise returned by \<open>uploadMultipart\<close> ends: \<open>Pending\<close> when the part events given
  never settle \<open>Promise.all\<close>. \<open>parts_phase\<close> is the state in which the parts phase ended, if
  it was entered; \<open>completeParams\<close> is the request of the complete call, if it was made.
\<close>

datatype outcome = Resolved "string option" | Rejected error | Pending

record result =
  final :: uploader
  outcome :: outcome
  parts_phase :: "parts_run option"
  completeParams :: "CompleteMultipartUploadRequest option"

definition reset :: "string \<Rightarrow> uploader \<Rightarrow> uploader" where
  "reset filename u =
     u\<lparr>uploadInProgress := False, partsUploadProgress := [],
       localStorage := removeLS (localStorage u) (video_key filename)\<rparr>"

text \<open>\<open>this.uploadInProgress = false; this.emit('error', errorObj); throw errorObj\<close>.\<close>

definition throw_error :: "error \<Rightarrow> uploader \<Rightarrow> result" where
  "throw_error errorObj u =
     \<lparr>final = emit (Error errorObj) (u\<lparr>uploadInProgress := False\<rparr>),
      outcome = Rejected errorObj, parts_phase = None, completeParams = None\<rparr>"

text \<open>The complete call and what follows it, the same in both upload methods.\<close>

definition uploadMultipartComplete ::
  "env \<Rightarrow> File \<Rightarrow> parts_run \<Rightarrow> CompleteMultipartUploadRequest \<Rightarrow> result" where
  "uploadMultipartComplete env f r req =
     (case complete_response env of
        Inl err \<Rightarrow>
          (throw_error CompleteFailed (up r))\<lparr>parts_phase := Some r, completeParams := Some req\<rparr>
      | Inr resp \<Rightarrow>
          \<lparr>final = emit (UploadComplete (completed_s3Filename resp)) (reset (file_name f) (up r)),
           outcome = Resolved (completed_s3Filename resp),
           parts_phase = Some r, completeParams = Some req\<rparr>)"

text \<open>
  From \<open>await Promise.all(promisesArr)\<close> to the end of either upload method; the two differ
  only in how they build the parts of the complete call from \<open>resolvedArr\<close>. The \<open>catch\<close>
  block of a rejected aggregate already ran in \<open>Promise_all\<close>.
\<close>

definition await_parts ::
  "env \<Rightarrow> File \<Rightarrow> parts_run
     \<Rightarrow> (UploadPartResponse list \<Rightarrow> CompleteMultipartUploadRequest) \<Rightarrow> result" where
  "await_parts env f r completeParams' =
     (case aggregate r of
        AllRejected \<Rightarrow>
          \<lparr>final = up r, outcome = Rejected PartsFailed, parts_phase = Some r,
           completeParams = None\<rparr>
      | AllPending \<Rightarrow>
          \<lparr>final = up r, outcome = Pending, parts_phase = Some r, completeParams = None\<rparr>
      | AllFulfilled resolvedArr \<Rightarrow>
          uploadMultipartComplete env f r (completeParams' resolvedArr))"

text \<open>\<open>uploadMultipart\<close> from \<open>this.uploadInProgress = true\<close> on: the create flow.\<close>

definition uploadMultipart_fresh :: "options \<Rightarrow> env \<Rightarrow> File \<Rightarrow> uploader \<Rightarrow> result" where
  "uploadMultipart_fresh opts env f s =
     (let partSizeInBytes' = uploadMultipart_partSizeInBytes opts f;
          numParts = uploadMultipart_numParts opts f;
          s1 = emit UploadStarted (s\<lparr>uploadInProgress := True\<rparr>)
      in case create_response env of
           Inl err \<Rightarrow> throw_error CreateFailed s1
         | Inr createMultipartUpload \<Rightarrow>
             let s2 = emit (UploadCreated (created_uploadId createMultipartUpload)
                              (created_s3Filename createMultipartUpload)) s1
             in if \<not> truthy (created_s3Filename createMultipartUpload)
                   \<or> \<not> truthy (created_uploadId createMultipartUpload)
                then throw_error CreateIncomplete s2
                else
                  let record = \<lparr>originalFilename = file_name f,
                                totalFileSizeInBytes = file_size f,
                                totalParts = numParts,
                                partSizeInBytes = partSizeInBytes',
                                finishedParts = Some [],
                                uploadId = created_uploadId createMultipartUpload,
                                s3Filename = created_s3Filename createMultipartUpload\<rparr>;
                      s3 = s2\<lparr>localStorage :=
                                setLS (localStorage s2) (video_key (file_name f)) record\<rparr>;
                      r = run_parts (concurrencyLimit opts) (file_name f) numParts
                            (pending_parts numParts []) (part_events env)
                            (loopMultipartParts (concurrencyLimit opts) numParts [] s3)
                  in await_parts env f r
                       (\<lambda>resolvedArr.
                          \<lparr>complete_uploadId = created_uploadId createMultipartUpload,
                           complete_s3Filename = created_s3Filename createMultipartUpload,
                           parts = resolvedArr\<rparr>))"

text \<open>
  \<open>!!(uploadId && s3Filename && cleanedFinishedParts.length && totalParts > 0 && partSizeInBytes)\<close>.
\<close>

definition isCompleteLocalRecord :: "LocalUploadRecord \<Rightarrow> UploadPartResponse list \<Rightarrow> bool" where
  "isCompleteLocalRecord localRecord cleanedFinishedParts \<longleftrightarrow>
     truthy (uploadId localRecord) \<and> truthy (s3Filename localRecord)
     \<and> length cleanedFinishedParts \<noteq> 0 \<and> totalParts localRecord > 0
     \<and> partSizeInBytes localRecord \<noteq> 0"

text \<open>
  \<open>uploadUnfinishedMultipart\<close> after the completeness check: the resume flow. The sort is
  JavaScript's stable \<open>sort\<close> with a comparator on \<open>PartNumber\<close>.
\<close>

definition uploadUnfinishedMultipart_resume ::
  "options \<Rightarrow> env \<Rightarrow> File \<Rightarrow> LocalUploadRecord \<Rightarrow> UploadPartResponse list \<Rightarrow> uploader
     \<Rightarrow> result" where
  "uploadUnfinishedMultipart_resume opts env f localRecord cleanedFinishedParts s =
     (let s1 = s\<lparr>partsUploadProgress :=
                  foldl (\<lambda>pp part. AList.update (PartNumber part) 100 pp)
                    (partsUploadProgress s) cleanedFinishedParts\<rparr>;
          startingPercentage =
            Math_round (of_nat (length cleanedFinishedParts) / of_int (totalParts localRecord) * 100);
          s2 = emit (TotalProgress startingPercentage)
                 (emit (UploadResumed startingPercentage localRecord) s1);
          finishedPartsLookup =
            foldl (\<lambda>obj item. AList.update (PartNumber item) item obj) [] cleanedFinishedParts;
          r = run_parts (concurrencyLimit opts) (file_name f) (totalParts localRecord)
                (pending_parts (totalParts localRecord) finishedPartsLookup) (part_events env)
                (loopMultipartParts (concurrencyLimit opts) (totalParts localRecord)
                   finishedPartsLookup s2)
      in await_parts env f r
           (\<lambda>resolvedArr.
              \<lparr>complete_uploadId = uploadId localRecord,
               complete_s3Filename = s3Filename localRecord,
               parts = sort_key PartNumber (cleanedFinishedParts @ resolvedArr)\<rparr>))"

text \<open>\<open>localRecord && localRecord?.finishedParts?.length > 0\<close>, as a test on the store.\<close>

definition has_unfinished :: "uploader \<Rightarrow> File \<Rightarrow> bool" where
  "has_unfinished s f \<longleftrightarrow>
     (case getAndParseLS (localStorage s) (video_key (file_name f)) of
        Inr (Some localRecord) \<Rightarrow>
          (case finishedParts localRecord of Some ps \<Rightarrow> length ps > 0 | None \<Rightarrow> False)
      | _ \<Rightarrow> False)"

text \<open>
  The two methods call each other: \<open>uploadMultipart\<close> hands a record with finished parts to
  \<open>uploadUnfinishedMultipart\<close>, which calls \<open>uploadMultipart\<close> again after removing a record
  it finds incomplete.
\<close>

function uploadMultipart :: "options \<Rightarrow> env \<Rightarrow> File \<Rightarrow> uploader \<Rightarrow> result"
  and uploadUnfinishedMultipart ::
    "options \<Rightarrow> env \<Rightarrow> File \<Rightarrow> LocalUploadRecord \<Rightarrow> uploader \<Rightarrow> result"
where
  "uploadMultipart opts env f s =
     (case getAndParseLS (localStorage s) (video_key (file_name f)) of
        Inl err \<Rightarrow> \<lparr>final = s, outcome = Rejected err, parts_phase = None, completeParams = None\<rparr>
      | Inr None \<Rightarrow> uploadMultipart_fresh opts env f s
      | Inr (Some localRecord) \<Rightarrow>
          (case finishedParts localRecord of
             None \<Rightarrow> uploadMultipart_fresh opts env f s
           | Some ps \<Rightarrow>
               if length ps > 0 then uploadUnfinishedMultipart opts env f localRecord s
               else uploadMultipart_fresh opts env f s))"
| "uploadUnfinishedMultipart opts env f localRecord s =
     (case finishedParts localRecord of
        None \<Rightarrow> \<lparr>final = s, outcome = Rejected TypeError, parts_phase = None, completeParams = None\<rparr>
      | Some ps \<Rightarrow>
          let cleanedFinishedParts = cleanUpETags ps;
              s1 = s\<lparr>localStorage := setLS (localStorage s) (video_key (file_name f))
                         (localRecord\<lparr>finishedParts := Some cleanedFinishedParts\<rparr>)\<rparr>
          in if \<not> isCompleteLocalRecord localRecord cleanedFinishedParts
             then uploadMultipart opts env f
                    (s1\<lparr>localStorage := removeLS (localStorage s1) (video_key (file_name f))\<rparr>)
             else uploadUnfinishedMultipart_resume opts env f localRecord cleanedFinishedParts s1)"
  by pat_completeness auto

termination
  apply (relation "measure (\<lambda>x. case x of
          Inl (opts, env, f, s) \<Rightarrow> (if has_unfinished s f then 2 else 0)
        | Inr (opts, env, f, localRecord, s) \<Rightarrow> 1)")
    apply simp
   apply (simp add: has_unfinished_def)
  apply (simp add: has_unfinished_def getAndParseLS_def getLS_def removeLS_def setLS_def)
  done

section \<open>Notions used in the properties\<close>

text \<open>
  The invariant of the throttle between events, for \<open>n\<close> calls made so far. \<open>pend\<close> lists
  the calls that were woken and have not yet re-evaluated the loop head.
\<close>

definition throttle_inv :: "nat \<Rightarrow> nat \<Rightarrow> throttle \<Rightarrow> nat list \<Rightarrow> bool" where
  "throttle_inv limit n s pend \<longleftrightarrow>
     sorted_wrt (<) (invoked s @ map fst (waiting s) @ pend)
     \<and> (\<forall>x \<in> set (invoked s @ map fst (waiting s) @ pend). x < n)
     \<and> (waiting s \<noteq> [] \<longrightarrow> limit \<le> length (executing s))
     \<and> (\<forall>w \<in> set (waiting s). snd w = executing s)
     \<and> distinct (executing s) \<and> length (executing s) \<le> limit
     \<and> set (executing s) \<subseteq> set (invoked s)
     \<and> set (outstanding s) \<subseteq> set (executing s)"

text \<open>The calls that were launched or are still waiting.\<close>

definition throttle_ids :: "throttle \<Rightarrow> nat set" where
  "throttle_ids s = set (invoked s) \<union> fst ` set (waiting s)"

text \<open>The invariant of the parts phase between events, for the planned parts \<open>arr\<close>.\<close>

definition run_inv :: "nat list \<Rightarrow> parts_run \<Rightarrow> bool" where
  "run_inv arr r \<longleftrightarrow>
     throttle_ids (pool r) \<subseteq> set arr
     \<and> PartNumber ` set (responses r) \<subseteq> set (fulfilled (pool r))
     \<and> set (rejected (pool r)) \<subseteq> set arr
     \<and> (rejected (pool r) \<noteq> [] \<longrightarrow> aggregate r = AllRejected)
     \<and> (\<forall>a. aggregate r = AllFulfilled a \<longrightarrow> outstanding (pool r) = [])"

text \<open>
  The store holds the record \<open>rec0\<close> for the file, its finished parts being \<open>ps0\<close> followed
  by the responses of this run in the order they arrived.
\<close>

definition holds_record ::
  "string \<Rightarrow> LocalUploadRecord \<Rightarrow> UploadPartResponse list \<Rightarrow> parts_run \<Rightarrow> bool" where
  "holds_record fileName rec0 ps0 r \<longleftrightarrow>
     localStorage (up r) (video_key fileName)
       = Some (Json (rec0\<lparr>finishedParts := Some (ps0 @ responses r)\<rparr>))"

definition resumable_fields :: "LocalUploadRecord \<Rightarrow> bool" where
  "resumable_fields localRecord \<longleftrightarrow>
     truthy (uploadId localRecord) \<and> truthy (s3Filename localRecord)
     \<and> totalParts localRecord > 0 \<and> partSizeInBytes localRecord \<noteq> 0"


text \<open>The store holds a record for the file that \<open>uploadMultipart\<close> resumes from.\<close>

definition resumes :: "uploader \<Rightarrow> File \<Rightarrow> bool" where
  "resumes s f \<longleftrightarrow>
     (case localStorage s (video_key (file_name f)) of
        Some (Json localRecord) \<Rightarrow>
          (case finishedParts localRecord of
             Some ps \<Rightarrow> ps \<noteq> [] \<and> isCompleteLocalRecord localRecord (cleanUpETags ps)
           | None \<Rightarrow> False)
      | _ \<Rightarrow> False)"

fun is_UploadResumed :: "event \<Rightarrow> bool" where
  "is_UploadResumed (UploadResumed p localRecord) = True"
| "is_UploadResumed e = False"

text \<open>From \<open>u\<close> to \<open>u'\<close> the log only grew, and by no \<open>uploadResumed\<close> notification.\<close>

definition adds_no_resume :: "uploader \<Rightarrow> uploader \<Rightarrow> bool" where
  "adds_no_resume u u' \<longleftrightarrow> (\<exists>xs. emitted u' = emitted u @ xs \<and> \<not> list_ex is_UploadResumed xs)"

text \<open>The percentages on the \<open>totalProgress\<close> channel, in the order they were emitted.\<close>

fun totalProgress_values :: "event list \<Rightarrow> int list" where
  "totalProgress_values [] = []"
| "totalProgress_values (TotalProgress p # es) = p # totalProgress_values es"
| "totalProgress_values (e # es) = totalProgress_values es"

text \<open>
  The responses of a run are those of the fulfilled tasks, in the order they arrived, each
  part at most once and each of them planned.
\<close>

definition responses_inv :: "nat list \<Rightarrow> parts_run \<Rightarrow> bool" where
  "responses_inv arr r \<longleftrightarrow>
     map PartNumber (responses r) = fulfilled (pool r)
     \<and> distinct (fulfilled (pool r))
     \<and> set (fulfilled (pool r)) \<subseteq> set arr"

text \<open>
  From \<open>u\<close> to \<open>u'\<close> the log only grew, the percentages added to the \<open>totalProgress\<close> channel
  are strictly increasing, and each lies above the last stored percentage of \<open>u\<close> and not
  above that of \<open>u'\<close>.
\<close>

definition progress_grows :: "uploader \<Rightarrow> uploader \<Rightarrow> bool" where
  "progress_grows u u' \<longleftrightarrow>
     (\<exists>xs. emitted u' = emitted u @ xs
        \<and> sorted_wrt (<) (totalProgress_values xs)
        \<and> (\<forall>v \<in> set (totalProgress_values xs). totalUploadProgress u < v \<and> v \<le> totalUploadProgress u'))
     \<and> totalUploadProgress u \<le> totalUploadProgress u'"

fun is_TotalProgress :: "event \<Rightarrow> bool" where
  "is_TotalProgress (TotalProgress p) = True"
| "is_TotalProgress e = False"

text \<open>A new instance (\<open>new MultipartUploader(options)\<close>) over a given \<open>localStorage\<close>.\<close>

definition new_uploader :: "(string \<rightharpoonup> LocalUploadRecord stored) \<Rightarrow> uploader" where
  "new_uploader ls =
     \<lparr>localStorage = ls, emitted = [], partsUploadProgress = [], totalUploadProgress = 0,
      uploadInProgress = False\<rparr>"

section \<open>Example inputs\<close>

text \<open>
  A file of three parts under options that allow two uploads at a time, a record of that
  file as the store would hold it, and a backend that answers the create and complete calls
  and lets the given part events happen.
\<close>

definition three_part_file :: File where
  "three_part_file = \<lparr>file_name = ''a.mov'', file_size = 25, file_type = ''video/mp4''\<rparr>"

definition two_at_a_time :: options where
  "two_at_a_time = \<lparr>concurrencyLimit = 2, partMinSizeBytes = 10, maxNumParts = 96\<rparr>"

definition tagged :: "nat \<Rightarrow> UploadPartResponse" where
  "tagged k = \<lparr>ETag = Some ''etag'', PartNumber = k\<rparr>"

definition record_of :: "UploadPartResponse list \<Rightarrow> string option \<Rightarrow> LocalUploadRecord" where
  "record_of ps uid =
     \<lparr>originalFilename = ''a.mov'', totalFileSizeInBytes = 25, totalParts = 3,
      partSizeInBytes = 985 / 96, finishedParts = Some ps, uploadId = uid,
      s3Filename = Some ''key-1''\<rparr>"

definition store_of :: "LocalUploadRecord \<Rightarrow> (string \<rightharpoonup> LocalUploadRecord stored)" where
  "store_of localRecord = [video_key ''a.mov'' \<mapsto> Json localRecord]"

definition backend :: "part_event list \<Rightarrow> env" where
  "backend evs =
     \<lparr>create_response =
        Inr \<lparr>created_uploadId = Some ''upload-1'', created_s3Filename = Some ''key-1''\<rparr>,
      part_events = evs,
      complete_response = Inr \<lparr>completed_s3Filename = Some ''key-1''\<rparr>\<rparr>"

definition empty_file :: File where
  "empty_file = \<lparr>file_name = ''empty.bin'', file_size = 0, file_type = ''text/plain''\<rparr>"

section \<open>Part planning: properties\<close>

lemma partSizeInBytes_pos:
  assumes "0 < partMinSizeBytes opts"
  shows "0 < uploadMultipart_partSizeInBytes opts f"
proof -
  have "(0::rat) < of_nat (partMinSizeBytes opts)"
    using assms by simp
  moreover have "(0::rat) \<le> of_nat (file_size f) / of_nat (maxNumParts opts)"
    by simp
  ultimately show ?thesis
    unfolding uploadMultipart_partSizeInBytes_def by linarith
qed




section \<open>A fold keeps what each step keeps\<close>

lemma foldl_inv:
  assumes "\<And>x e. P x \<Longrightarrow> P (f x e)" and "P x"
  shows "P (foldl f x es)"
  using assms(2) by (induction es arbitrary: x) (simp_all add: assms(1))

section \<open>The store: properties\<close>

lemma getAndParseLS_cases:
  "getAndParseLS ls k = Inr (case ls k of Some (Json v) \<Rightarrow> Some v | _ \<Rightarrow> None)"
  by (simp add: getAndParseLS_def getLS_def split: option.splits stored.splits list.splits)

text \<open>
  C9. For every key, \<open>getAndParseLS\<close> returns the parsed value when the stored string is
  valid JSON, and returns \<open>null\<close> when the key is absent or the stored string does not
  parse; in no case does an exception leave it.
\<close>

theorem getAndParseLS_never_throws:
  "(ls k = Some (Json v) \<longrightarrow> getAndParseLS ls k = Inr (Some v))
   \<and> (ls k = Some JsonNull \<longrightarrow> getAndParseLS ls k = Inr None)
   \<and> (ls k = None \<longrightarrow> getAndParseLS ls k = Inr None)
   \<and> (ls k = Some (NotJson s) \<longrightarrow> getAndParseLS ls k = Inr None)
   \<and> (\<forall>err. getAndParseLS ls k \<noteq> Inl err)"
  by (simp add: getAndParseLS_cases)

theorem getAndParseLS_never_throws_witness:
  "getAndParseLS [''k1'' \<mapsto> Json (7::nat), ''k2'' \<mapsto> NotJson ''{oops''] ''k1'' = Inr (Some 7)
   \<and> getAndParseLS [''k1'' \<mapsto> Json (7::nat), ''k2'' \<mapsto> NotJson ''{oops''] ''k2'' = Inr None
   \<and> getAndParseLS [''k1'' \<mapsto> Json (7::nat), ''k2'' \<mapsto> NotJson ''{oops''] ''k3'' = Inr None"
proof -
  let ?ls = "[''k1'' \<mapsto> Json (7::nat), ''k2'' \<mapsto> NotJson ''{oops'']"
  have "getAndParseLS ?ls ''k1'' = Inr (Some 7)"
    using getAndParseLS_never_throws [of ?ls "''k1''" 7] by simp
  moreover have "getAndParseLS ?ls ''k2'' = Inr None"
    using getAndParseLS_never_throws [of ?ls "''k2''" _ "''{oops''"] by simp
  moreover have "getAndParseLS ?ls ''k3'' = Inr None"
    using getAndParseLS_never_throws [of ?ls "''k3''"] by simp
  ultimately show ?thesis
    by simp
qed

lemma removeLS_apply [simp]: "removeLS ls k k' = (if k' = k then None else ls k')"
  by (simp add: removeLS_def)

lemma setLS_apply [simp]: "setLS ls k v k' = (if k' = k then Some (Json v) else ls k')"
  by (simp add: setLS_def)

section \<open>The throttle: properties\<close>

lemma inv_enter:
  assumes "throttle_inv limit n s (k # pend)"
  shows "throttle_inv limit n (promiseFnThrottle limit k s) pend"
proof (cases "limit \<le> length (executing s)")
  case True
  then show ?thesis
    using assms
    by (auto simp: throttle_inv_def promiseFnThrottle_def outstanding_def sorted_wrt_append)
next
  case False
  then have w: "waiting s = []"
    using assms by (auto simp: throttle_inv_def)
  have "k \<notin> set (invoked s)"
    using assms by (auto simp: throttle_inv_def sorted_wrt_append)
  then have "k \<notin> set (executing s)"
    using assms by (auto simp: throttle_inv_def)
  then show ?thesis
    using assms False w
    by (auto simp: throttle_inv_def promiseFnThrottle_def launch_def outstanding_def sorted_wrt_append)
qed

lemma inv_resume_all:
  "throttle_inv limit n s (ks @ pend) \<Longrightarrow> throttle_inv limit n (resume_all limit ks s) pend"
proof (induction ks arbitrary: s)
  case Nil
  then show ?case by simp
next
  case (Cons k ks)
  then show ?case
    by (simp add: inv_enter)
qed

lemma inv_weaken: "throttle_inv limit n s [] \<Longrightarrow> throttle_inv limit (Suc n) s [n]"
  by (auto simp: throttle_inv_def sorted_wrt_append less_Suc_eq)

lemma inv_submit:
  "throttle_inv limit n s [] \<Longrightarrow> throttle_inv limit (Suc n) (promiseFnThrottle limit n s) []"
  by (rule inv_enter) (rule inv_weaken)

lemma woken_all:
  assumes "\<forall>w \<in> set ws. snd w = ex" and "p \<in> set ex"
  shows "[w \<leftarrow> ws. p \<notin> set (snd w)] = []" and "[fst w. w \<leftarrow> ws, p \<in> set (snd w)] = map fst ws"
  using assms by (induction ws) auto

lemma inv_fulfil:
  assumes "throttle_inv limit n s []"
  shows "throttle_inv limit n (fulfil limit p s) []"
proof (cases "p \<in> set (outstanding s)")
  case False
  then show ?thesis using assms by (simp add: fulfil_def)
next
  case True
  then have pex: "p \<in> set (executing s)"
    using assms by (auto simp: throttle_inv_def)
  have snaps: "\<forall>w \<in> set (waiting s). snd w = executing s"
    using assms by (simp add: throttle_inv_def)
  let ?s1 = "s\<lparr>fulfilled := fulfilled s @ [p], executing := removeAll p (executing s),
               waiting := []\<rparr>"
  have eq: "fulfil limit p s = resume_all limit (map fst (waiting s)) ?s1"
    using True woken_all [OF snaps pex] by (simp add: fulfil_def)
  have "length (removeAll p (executing s)) < length (executing s)"
    using pex by (simp add: length_removeAll_less)
  then have "throttle_inv limit n ?s1 (map fst (waiting s) @ [])"
    using assms by (auto simp: throttle_inv_def outstanding_def distinct_removeAll)
  then show ?thesis
    unfolding eq by (rule inv_resume_all)
qed

lemma inv_reject:
  assumes "throttle_inv limit n s []"
  shows "throttle_inv limit n (reject p s) []"
proof (cases "p \<in> set (outstanding s)")
  case False
  then show ?thesis using assms by (simp add: reject_def)
next
  case True
  then have pex: "p \<in> set (executing s)"
    using assms by (auto simp: throttle_inv_def)
  have snaps: "\<forall>w \<in> set (waiting s). snd w = executing s"
    using assms by (simp add: throttle_inv_def)
  show ?thesis
    using assms True woken_all [OF snaps pex]
    by (auto simp: reject_def throttle_inv_def outstanding_def sorted_wrt_append)
qed

lemma inv_step:
  "throttle_inv limit (fst c) (snd c) [] \<Longrightarrow>
   throttle_inv limit (fst (throttle_step limit c e)) (snd (throttle_step limit c e)) []"
  by (cases c; cases e) (simp_all add: inv_submit inv_fulfil inv_reject)

lemma inv_foldl:
  "throttle_inv limit (fst c) (snd c) [] \<Longrightarrow>
   throttle_inv limit (fst (foldl (throttle_step limit) c evs))
     (snd (foldl (throttle_step limit) c evs)) []"
  by (induction evs arbitrary: c) (simp_all add: inv_step)

lemma inv_run: "throttle_inv limit (fst (throttle_run limit evs)) (snd (throttle_run limit evs)) []"
  unfolding throttle_run_def
  by (rule inv_foldl) (simp add: throttle_inv_def throttle_init_def outstanding_def)

lemma outstanding_le:
  assumes "throttle_inv limit n s []"
  shows "length (outstanding s) \<le> limit"
proof -
  have "distinct (invoked s)"
    using assms by (auto simp: throttle_inv_def sorted_wrt_append strict_sorted_iff)
  then have "distinct (outstanding s)"
    by (simp add: outstanding_def)
  then have "length (outstanding s) = card (set (outstanding s))"
    by (simp add: distinct_card)
  also have "\<dots> \<le> card (set (executing s))"
    using assms by (auto simp: throttle_inv_def intro: card_mono)
  also have "\<dots> \<le> length (executing s)"
    by (rule card_length)
  also have "\<dots> \<le> limit"
    using assms by (simp add: throttle_inv_def)
  finally show ?thesis .
qed

lemma promiseFnThrottle_footprint:
  "throttle_ids (promiseFnThrottle l k s) \<subseteq> insert k (throttle_ids s)"
  "fulfilled (promiseFnThrottle l k s) = fulfilled s"
  "rejected (promiseFnThrottle l k s) = rejected s"
  by (auto simp: promiseFnThrottle_def launch_def throttle_ids_def)

lemma resume_all_ids: "throttle_ids (resume_all l ks s) \<subseteq> set ks \<union> throttle_ids s"
proof (induction ks arbitrary: s)
  case Nil
  then show ?case by simp
next
  case (Cons k ks)
  show ?case
    using Cons.IH [of "promiseFnThrottle l k s"] promiseFnThrottle_footprint(1) [of l k s]
    by (simp del: insert_subset) blast
qed

lemma resume_all_settled:
  "fulfilled (resume_all l ks s) = fulfilled s" "rejected (resume_all l ks s) = rejected s"
  by (induction ks arbitrary: s) (simp_all add: promiseFnThrottle_footprint)

lemma submit_all_ids:
  "throttle_ids (foldl (\<lambda>th k. promiseFnThrottle l k th) s ks) \<subseteq> set ks \<union> throttle_ids s"
proof (induction ks arbitrary: s)
  case Nil
  then show ?case by simp
next
  case (Cons k ks)
  show ?case
    using Cons.IH [of "promiseFnThrottle l k s"] promiseFnThrottle_footprint(1) [of l k s]
    by (simp del: insert_subset) blast
qed

lemma submit_all_settled:
  "fulfilled (foldl (\<lambda>th k. promiseFnThrottle l k th) s ks) = fulfilled s"
  "rejected (foldl (\<lambda>th k. promiseFnThrottle l k th) s ks) = rejected s"
  by (induction ks arbitrary: s) (simp_all add: promiseFnThrottle_footprint)

lemma fulfil_footprint:
  "throttle_ids (fulfil l p s) \<subseteq> throttle_ids s"
  "rejected (fulfil l p s) = rejected s"
  "fulfilled (fulfil l p s) = (if p \<in> set (outstanding s) then fulfilled s @ [p] else fulfilled s)"
proof -
  let ?woken = "[fst w. w \<leftarrow> waiting s, p \<in> set (snd w)]"
  let ?s1 = "s\<lparr>fulfilled := fulfilled s @ [p], executing := removeAll p (executing s),
               waiting := [w \<leftarrow> waiting s. p \<notin> set (snd w)]\<rparr>"
  have "set ?woken \<union> throttle_ids ?s1 \<subseteq> throttle_ids s"
    by (auto simp: throttle_ids_def)
  then have "throttle_ids (resume_all l ?woken ?s1) \<subseteq> throttle_ids s"
    using resume_all_ids [of l ?woken ?s1] by blast
  then show "throttle_ids (fulfil l p s) \<subseteq> throttle_ids s"
    by (simp add: fulfil_def)
  show "rejected (fulfil l p s) = rejected s"
    by (simp add: fulfil_def resume_all_settled)
  show "fulfilled (fulfil l p s) = (if p \<in> set (outstanding s) then fulfilled s @ [p] else fulfilled s)"
    by (simp add: fulfil_def resume_all_settled)
qed

lemma reject_footprint:
  "throttle_ids (reject p s) \<subseteq> throttle_ids s"
  "fulfilled (reject p s) = fulfilled s"
  "rejected (reject p s) = (if p \<in> set (outstanding s) then rejected s @ [p] else rejected s)"
  by (auto simp: reject_def throttle_ids_def)

lemma outstanding_invoked: "set (outstanding s) \<subseteq> set (invoked s)"
  by (auto simp: outstanding_def)

lemma throttle_step_ids:
  "throttle_ids (snd (throttle_step l c e)) \<subseteq> throttle_ids (snd c) \<union> {n. fst c \<le> n}"
proof -
  obtain n s where c: "c = (n, s)"
    by (cases c)
  show ?thesis
  proof (cases e)
    case Submit
    then show ?thesis
      using promiseFnThrottle_footprint(1) [of l n s] by (auto simp: c)
  next
    case (Fulfil p)
    then show ?thesis
      using fulfil_footprint(1) [of l p s] by (auto simp: c)
  next
    case (Reject p)
    then show ?thesis
      using reject_footprint(1) [of p s] by (auto simp: c)
  qed
qed

lemma throttle_step_calls: "fst c \<le> fst (throttle_step l c e)"
  by (cases c; cases e) simp_all

lemma never_invoked:
  assumes "k < fst c" and "k \<notin> throttle_ids (snd c)"
  shows "k \<notin> set (invoked (snd (foldl (throttle_step l) c evs)))"
proof -
  let ?P = "\<lambda>c. k < fst c \<and> k \<notin> throttle_ids (snd c)"
  have step: "?P (throttle_step l c e)" if "?P c" for c e
    using that throttle_step_ids [of l c e] throttle_step_calls [of c l e] by auto
  have "?P (foldl (throttle_step l) c evs)"
    by (rule foldl_inv [where P = ?P, OF step]) (use assms in simp_all)
  then show ?thesis
    by (simp add: throttle_ids_def)
qed

text \<open>
  C2 (the code departs from the claim). With limit 1, two factories are submitted and the
  first task rejects. The rejected promise stays in \<open>executing\<close>, so no slot is freed; the
  second call's race rejects, so its factory is not called then, nor after any later events.
  Had the first task fulfilled, the second factory would have been called.
\<close>

theorem throttle_rejection_drops_waiters:
  "snd (throttle_run 1 [Submit, Submit, Reject 0])
     = \<lparr>executing = [0], waiting = [], invoked = [0], fulfilled = [], rejected = [0],
        dropped = [1]\<rparr>
   \<and> (\<forall>evs. 1 \<notin> set (invoked (snd (throttle_run 1 ([Submit, Submit, Reject 0] @ evs)))))
   \<and> invoked (snd (throttle_run 1 [Submit, Submit, Fulfil 0])) = [0, 1]"
proof -
  have ok: "invoked (snd (throttle_run 1 [Submit, Submit, Fulfil 0])) = [0, 1]"
    by (simp add: throttle_run_def throttle_init_def promiseFnThrottle_def launch_def fulfil_def
        outstanding_def)
  have run: "throttle_run 1 [Submit, Submit, Reject 0]
     = (2, \<lparr>executing = [0], waiting = [], invoked = [0], fulfilled = [], rejected = [0],
            dropped = [1]\<rparr>)"
    by (simp add: throttle_run_def throttle_init_def promiseFnThrottle_def launch_def reject_def
        outstanding_def)
  have "1 \<notin> set (invoked (snd (throttle_run 1 ([Submit, Submit, Reject 0] @ evs))))" for evs
  proof -
    have "throttle_run 1 ([Submit, Submit, Reject 0] @ evs)
        = foldl (throttle_step 1) (throttle_run 1 [Submit, Submit, Reject 0]) evs"
      by (simp add: throttle_run_def)
    then show ?thesis
      unfolding run by (simp add: never_invoked throttle_ids_def)
  qed
  then show ?thesis
    using run ok by simp
qed

section \<open>uploadMultipart: properties\<close>

subsection \<open>Which flow runs\<close>

lemma uploadMultipart_no_record:
  assumes "\<not> has_unfinished s f"
  shows "uploadMultipart opts env f s = uploadMultipart_fresh opts env f s"
  using assms
  by (simp add: has_unfinished_def getAndParseLS_cases split: option.splits stored.splits)

lemma has_unfinished_removed [simp]:
  "\<not> has_unfinished (s\<lparr>localStorage := removeLS ls (video_key (file_name f))\<rparr>) f"
  by (simp add: has_unfinished_def getAndParseLS_cases)

lemma removeLS_setLS [simp]: "removeLS (setLS ls k v) k = removeLS ls k"
  by (simp add: removeLS_def setLS_def)

lemma uploadMultipart_unfinished:
  assumes "localStorage s (video_key (file_name f)) = Some (Json localRecord)"
    and "finishedParts localRecord = Some ps" and "ps \<noteq> []"
  shows "uploadMultipart opts env f s =
     (if isCompleteLocalRecord localRecord (cleanUpETags ps)
      then uploadUnfinishedMultipart_resume opts env f localRecord (cleanUpETags ps)
             (s\<lparr>localStorage := setLS (localStorage s) (video_key (file_name f))
                   (localRecord\<lparr>finishedParts := Some (cleanUpETags ps)\<rparr>)\<rparr>)
      else uploadMultipart_fresh opts env f
             (s\<lparr>localStorage := removeLS (localStorage s) (video_key (file_name f))\<rparr>))"
  using assms
  by (simp add: getAndParseLS_cases uploadMultipart_no_record Let_def)

declare uploadMultipart.simps [simp del] uploadUnfinishedMultipart.simps [simp del]

subsection \<open>What the steps leave alone\<close>

lemma emit_simps [simp]:
  "localStorage (emit e u) = localStorage u"
  "emitted (emit e u) = emitted u @ [e]"
  "partsUploadProgress (emit e u) = partsUploadProgress u"
  "totalUploadProgress (emit e u) = totalUploadProgress u"
  "uploadInProgress (emit e u) = uploadInProgress u"
  by (simp_all add: emit_def)

lemma onprogress_localStorage [simp]:
  "localStorage (onprogress k t ev u) = localStorage u"
  by (simp add: onprogress_def Let_def)

lemma started_localStorage [simp]: "localStorage (started a b u) = localStorage u"
proof -
  have "localStorage (foldl (\<lambda>u k. emit (UploadPartStarted k) u) u ks) = localStorage u" for ks
    by (induction ks arbitrary: u) simp_all
  then show ?thesis by (simp add: started_def)
qed

lemma started_emitted [simp]:
  "emitted (started a b u) = emitted u @ map UploadPartStarted (drop (length (invoked a)) (invoked b))"
proof -
  have "emitted (foldl (\<lambda>u k. emit (UploadPartStarted k) u) u ks) = emitted u @ map UploadPartStarted ks" for ks
    by (induction ks arbitrary: u) simp_all
  then show ?thesis by (simp add: started_def)
qed

lemma Promise_all_simps [simp]:
  "localStorage (up (Promise_all arr r)) = localStorage (up r)"
  "responses (Promise_all arr r) = responses r"
  "pool (Promise_all arr r) = pool r"
  "putting (Promise_all arr r) = putting r"
  by (simp_all add: Promise_all_def split: promise_all.splits option.splits)

lemma handler_aggregate [simp]:
  "aggregate (part_event_handler l n t r e) = aggregate r"
  by (cases e) (simp_all add: Let_def split: sum.splits)


lemma collect_covers: "collect ks rs = Some arr \<Longrightarrow> set ks \<subseteq> PartNumber ` set rs"
proof (induction ks arbitrary: arr)
  case Nil
  then show ?case by simp
next
  case (Cons k ks)
  then show ?case
    by (auto split: option.splits simp: find_Some_iff)
qed

lemma Promise_all_fulfilled:
  assumes "aggregate (Promise_all arr r) = AllFulfilled a"
  shows "aggregate r = AllFulfilled a \<or> (aggregate r = AllPending \<and> collect arr (responses r) = Some a)"
  using assms by (auto simp: Promise_all_def split: promise_all.splits option.splits if_splits)


lemma pending_parts_sorted: "sorted_wrt (<) (pending_parts t lookup)"
  by (simp add: pending_parts_def sorted_wrt_filter sorted_wrt_map)

lemma lookup_dom:
  "dom (map_of (foldl (\<lambda>obj item. AList.update (PartNumber item) item obj) acc ps))
     = dom (map_of acc) \<union> PartNumber ` set ps"
  by (induction ps arbitrary: acc) (auto simp: update_conv')

lemma lookup_None:
  "map_of (foldl (\<lambda>obj item. AList.update (PartNumber item) item obj) [] ps) k = None
     \<longleftrightarrow> k \<notin> PartNumber ` set ps"
proof -
  have "k \<in> dom (map_of (foldl (\<lambda>obj item. AList.update (PartNumber item) item obj) [] ps))
          \<longleftrightarrow> k \<in> PartNumber ` set ps"
    using lookup_dom [of "[]" ps] by simp
  then show ?thesis
    by (auto simp: domIff)
qed

lemma pending_parts_not_finished:
  "set (pending_parts t (foldl (\<lambda>obj item. AList.update (PartNumber item) item obj) [] ps))
     \<inter> PartNumber ` set ps = {}"
  by (auto simp: pending_parts_def lookup_None)

subsection \<open>The parts of the complete call\<close>

lemma completeParams_simps [simp]:
  "completeParams (uploadMultipartComplete env f r req) = Some req"
  "completeParams (throw_error e u) = None"
  by (simp_all add: uploadMultipartComplete_def throw_error_def split: sum.splits)

lemma loop_aggregate [simp]: "aggregate (loopMultipartParts l t lookup u) = AllPending"
  by (simp add: loopMultipartParts_def Let_def)

lemma await_parts_phase [simp]: "parts_phase (await_parts env f r mk) = Some r"
  by (simp add: await_parts_def uploadMultipartComplete_def throw_error_def
      split: promise_all.splits sum.splits)


lemma await_parts_rejected:
  assumes "aggregate r = AllRejected"
  shows "outcome (await_parts env f r mk) = Rejected PartsFailed" "final (await_parts env f r mk) = up r"
  using assms by (simp_all add: await_parts_def)




lemma has_unfinished_iff:
  "has_unfinished s f \<longleftrightarrow>
     (\<exists>localRecord ps. localStorage s (video_key (file_name f)) = Some (Json localRecord)
        \<and> finishedParts localRecord = Some ps \<and> ps \<noteq> [])"
  by (auto simp: has_unfinished_def getAndParseLS_cases split: option.splits stored.splits)


subsection \<open>Launch order and concurrency\<close>

lemma submit_all_resume_all:
  "foldl (\<lambda>th k. promiseFnThrottle l k th) s ks = resume_all l ks s"
  by (induction ks arbitrary: s) simp_all

lemma pending_parts_bound: "k \<in> set (pending_parts t lookup) \<Longrightarrow> k < Suc (nat t)"
  by (auto simp: pending_parts_def)

lemma loop_throttle_inv:
  "throttle_inv l (Suc (nat t)) (pool (loopMultipartParts l t lookup u)) []"
proof -
  have "throttle_inv l (Suc (nat t)) throttle_init (pending_parts t lookup @ [])"
    using pending_parts_sorted [of t lookup] pending_parts_bound [of _ t lookup]
    by (auto simp: throttle_inv_def throttle_init_def outstanding_def)
  then have "throttle_inv l (Suc (nat t)) (resume_all l (pending_parts t lookup) throttle_init) []"
    by (rule inv_resume_all)
  then show ?thesis
    by (simp add: loopMultipartParts_def Let_def submit_all_resume_all)
qed

lemma handler_throttle_inv:
  assumes "throttle_inv l n (pool r) []"
  shows "throttle_inv l n (pool (part_event_handler l fileName t r e)) []"
  using assms
  by (cases e) (auto simp: Let_def inv_fulfil inv_reject split: sum.splits)

lemma run_throttle_inv:
  "throttle_inv l (Suc (nat t))
     (pool (run_parts l fileName t' arr evs (loopMultipartParts l t lookup u))) []"
  unfolding run_parts_def
proof (rule foldl_inv [where P = "\<lambda>r. throttle_inv l (Suc (nat t)) (pool r) []"])
  show "throttle_inv l (Suc (nat t)) (pool (parts_step l fileName t' arr r e)) []"
    if "throttle_inv l (Suc (nat t)) (pool r) []" for r e
    using that by (simp add: parts_step_def handler_throttle_inv)
  show "throttle_inv l (Suc (nat t)) (pool (Promise_all arr (loopMultipartParts l t lookup u))) []"
    by (simp add: loop_throttle_inv)
qed

lemma fresh_phase:
  assumes "parts_phase (uploadMultipart_fresh opts env f s) = Some r"
  shows "\<exists>t arr lookup u. r = run_parts (concurrencyLimit opts) (file_name f) t arr (part_events env)
           (loopMultipartParts (concurrencyLimit opts) t lookup u)"
  using assms
  by (auto simp: uploadMultipart_fresh_def Let_def throw_error_def split: sum.splits if_splits)

lemma resume_phase:
  assumes "parts_phase (uploadUnfinishedMultipart_resume opts env f localRecord cleaned s) = Some r"
  shows "\<exists>t arr lookup u. r = run_parts (concurrencyLimit opts) (file_name f) t arr (part_events env)
           (loopMultipartParts (concurrencyLimit opts) t lookup u)"
  using assms by (auto simp: uploadUnfinishedMultipart_resume_def Let_def)

lemma upload_phase:
  assumes "parts_phase (uploadMultipart opts env f s) = Some r"
  shows "\<exists>t arr lookup u. r = run_parts (concurrencyLimit opts) (file_name f) t arr (part_events env)
           (loopMultipartParts (concurrencyLimit opts) t lookup u)"
proof (cases "has_unfinished s f")
  case False
  then show ?thesis
    using assms fresh_phase by (simp add: uploadMultipart_no_record)
next
  case True
  then obtain localRecord ps where rec:
    "localStorage s (video_key (file_name f)) = Some (Json localRecord)"
    "finishedParts localRecord = Some ps" "ps \<noteq> []"
    by (auto simp: has_unfinished_iff)
  show ?thesis
    using assms uploadMultipart_unfinished [OF rec, of opts env] fresh_phase resume_phase
    by (auto split: if_splits)
qed

lemma parts_launched_in_order:
  assumes "parts_phase (uploadMultipart opts env f s) = Some r"
  shows "length (outstanding (pool r)) \<le> concurrencyLimit opts
     \<and> sorted_wrt (<) (invoked (pool r) @ map fst (waiting (pool r)))"
proof -
  obtain t arr lookup u where "r = run_parts (concurrencyLimit opts) (file_name f) t arr
      (part_events env) (loopMultipartParts (concurrencyLimit opts) t lookup u)"
    using upload_phase [OF assms] by blast
  then obtain n where inv: "throttle_inv (concurrencyLimit opts) n (pool r) []"
    using run_throttle_inv by blast
  show ?thesis
    using inv outstanding_le [OF inv] by (simp add: throttle_inv_def)
qed

text \<open>
  C3. For every limit and every sequence of submissions and settlements, at every instant
  at most \<open>concurrencyLimit\<close> tasks are outstanding, and factories are called in submission
  order: the calls launched so far, followed by the calls still waiting, are in strictly
  increasing submission order, so no call is launched while an earlier one is still waiting
  for a slot. The same holds of the part tasks of an upload, which \<open>loopMultipartParts\<close>
  submits in ascending order of part number, after any sequence of part events.
\<close>

theorem throttle_bounded_and_ordered:
  "length (outstanding (snd (throttle_run limit evs))) \<le> limit
   \<and> sorted_wrt (<) (invoked (snd (throttle_run limit evs))
        @ map fst (waiting (snd (throttle_run limit evs))))
   \<and> (parts_phase (uploadMultipart opts env f s) = Some r \<longrightarrow>
        length (outstanding (pool r)) \<le> concurrencyLimit opts
        \<and> sorted_wrt (<) (invoked (pool r) @ map fst (waiting (pool r))))"
  using inv_run [of limit evs] outstanding_le [OF inv_run, of limit evs]
    parts_launched_in_order [of opts env f s r]
  by (simp add: throttle_inv_def)

theorem throttle_bounded_and_ordered_witness:
  "outstanding (snd (throttle_run 2 [Submit, Submit, Submit, Submit, Fulfil 1])) = [0, 2]
   \<and> invoked (snd (throttle_run 2 [Submit, Submit, Submit, Submit, Fulfil 1])) = [0, 1, 2]
   \<and> map fst (waiting (snd (throttle_run 2 [Submit, Submit, Submit, Submit, Fulfil 1]))) = [3]
   \<and> length (outstanding (snd (throttle_run 2 [Submit, Submit, Submit, Submit, Fulfil 1]))) \<le> 2
   \<and> invoked (pool (the (parts_phase (uploadMultipart two_at_a_time
        (backend [SignOk 1 ''url-1'', SignOk 2 ''url-2'', Onload 2 200 (Some ''etag'')])
        three_part_file (new_uploader Map.empty))))) = [1, 2, 3]
   \<and> length (outstanding (pool (the (parts_phase (uploadMultipart two_at_a_time
        (backend [SignOk 1 ''url-1'', SignOk 2 ''url-2'', Onload 2 200 (Some ''etag'')])
        three_part_file (new_uploader Map.empty)))))) \<le> concurrencyLimit two_at_a_time"
proof -
  let ?evs = "[Submit, Submit, Submit, Submit, Fulfil 1]"
  let ?res = "uploadMultipart two_at_a_time
        (backend [SignOk 1 ''url-1'', SignOk 2 ''url-2'', Onload 2 200 (Some ''etag'')])
        three_part_file (new_uploader Map.empty)"
  have a: "outstanding (snd (throttle_run 2 ?evs)) = [0, 2]"
    and b: "invoked (snd (throttle_run 2 ?evs)) = [0, 1, 2]"
    and c: "map fst (waiting (snd (throttle_run 2 ?evs))) = [3]"
    and d: "invoked (pool (the (parts_phase ?res))) = [1, 2, 3]"
    by code_simp+
  have "\<not> Option.is_none (parts_phase ?res)"
    by code_simp
  then have phase: "parts_phase ?res = Some (the (parts_phase ?res))"
    by (cases "parts_phase ?res") simp_all
  note bound = throttle_bounded_and_ordered [of 2 ?evs two_at_a_time
      "backend [SignOk 1 ''url-1'', SignOk 2 ''url-2'', Onload 2 200 (Some ''etag'')]"
      three_part_file "new_uploader Map.empty" "the (parts_phase ?res)"]
  have "length (outstanding (snd (throttle_run 2 ?evs))) \<le> 2"
    using bound by blast
  moreover have "length (outstanding (pool (the (parts_phase ?res)))) \<le> concurrencyLimit two_at_a_time"
    using bound phase by blast
  ultimately show ?thesis
    using a b c d by simp
qed

subsection \<open>The invariant of the parts phase\<close>

lemma handler_frozen:
  assumes "outstanding (pool r) = []"
  shows "part_event_handler l n t r e = r"
  using assms by (cases e) (simp_all add: signing_def in_flight_def)

lemma handler_footprint:
  "throttle_ids (pool (part_event_handler l n t r e)) \<subseteq> throttle_ids (pool r)"
proof (cases e)
  case (SignFails k)
  then show ?thesis
    using reject_footprint(1) [of k "pool r"] by auto
next
  case (SignOk k url)
  then show ?thesis by auto
next
  case (Progress k ev)
  then show ?thesis by auto
next
  case (Onload k status eTag)
  then show ?thesis
    using reject_footprint(1) [of k "pool r"] fulfil_footprint(1) [of l k "pool r"]
    by (auto simp: Let_def)
next
  case (Onerror k)
  then show ?thesis
    using reject_footprint(1) [of k "pool r"] by (auto split: sum.splits)
qed

lemma handler_responses:
  assumes "PartNumber ` set (responses r) \<subseteq> set (fulfilled (pool r))"
  shows "PartNumber ` set (responses (part_event_handler l n t r e))
           \<subseteq> set (fulfilled (pool (part_event_handler l n t r e)))"
proof (cases e)
  case (Onload k status eTag)
  then show ?thesis
    using assms
    by (auto simp: Let_def in_flight_def fulfil_footprint reject_footprint)
qed (use assms in \<open>auto simp: reject_footprint split: sum.splits\<close>)

lemma handler_rejected:
  "set (rejected (pool (part_event_handler l n t r e)))
     \<subseteq> set (rejected (pool r)) \<union> set (outstanding (pool r))"
  by (cases e) (auto simp: Let_def fulfil_footprint reject_footprint split: sum.splits if_splits)

lemma Promise_all_rejects:
  assumes "x \<in> set (rejected (pool r))" and "x \<in> set arr"
  shows "\<exists>a. aggregate (Promise_all arr r) = AllRejected \<or> aggregate r = AllFulfilled a"
  using assms
  by (cases "aggregate r") (auto simp: Promise_all_def list_ex_iff)

lemma step_run_inv:
  assumes "run_inv arr r"
  shows "run_inv arr (parts_step l n t arr r e)"
proof (cases "\<exists>a. aggregate r = AllFulfilled a")
  case True
  then have "part_event_handler l n t r e = r"
    using assms by (auto simp: run_inv_def handler_frozen)
  moreover have "Promise_all arr r = r"
    using True by (auto simp: Promise_all_def)
  ultimately show ?thesis
    using assms by (simp add: parts_step_def)
next
  case False
  let ?h = "part_event_handler l n t r e"
  have fp: "throttle_ids (pool ?h) \<subseteq> set arr"
    using assms handler_footprint [of l n t r e] by (auto simp: run_inv_def)
  have resp: "PartNumber ` set (responses ?h) \<subseteq> set (fulfilled (pool ?h))"
    using assms by (auto simp: run_inv_def intro: handler_responses [THEN subsetD])
  have agg: "aggregate ?h = aggregate r"
    by simp
  have A: "set (rejected (pool r)) \<subseteq> set arr" and B: "throttle_ids (pool r) \<subseteq> set arr"
    using assms by (simp_all add: run_inv_def)
  have C: "set (outstanding (pool r)) \<subseteq> throttle_ids (pool r)"
    using outstanding_invoked [of "pool r"] by (auto simp: throttle_ids_def)
  have rej: "set (rejected (pool ?h)) \<subseteq> set arr"
    using handler_rejected [of l n t r e] A B C by blast
  have c3: "rejected (pool ?h) \<noteq> [] \<longrightarrow> aggregate (Promise_all arr ?h) = AllRejected"
  proof
    assume "rejected (pool ?h) \<noteq> []"
    then obtain x where "x \<in> set (rejected (pool ?h))"
      by (cases "rejected (pool ?h)") auto
    then show "aggregate (Promise_all arr ?h) = AllRejected"
      using rej False Promise_all_rejects [of x ?h arr] agg by auto
  qed
  have c4: "\<forall>a. aggregate (Promise_all arr ?h) = AllFulfilled a \<longrightarrow> outstanding (pool ?h) = []"
  proof (intro allI impI)
    fix a
    assume "aggregate (Promise_all arr ?h) = AllFulfilled a"
    then have "collect arr (responses ?h) = Some a"
      using False agg by (auto dest!: Promise_all_fulfilled)
    then have "set arr \<subseteq> set (fulfilled (pool ?h))"
      using resp by (auto dest!: collect_covers)
    then have "set (invoked (pool ?h)) \<subseteq> set (fulfilled (pool ?h))"
      using fp by (auto simp: throttle_ids_def)
    then show "outstanding (pool ?h) = []"
      by (auto simp: outstanding_def filter_empty_conv)
  qed
  show ?thesis
    unfolding parts_step_def run_inv_def
    using fp resp rej c3 c4 by simp
qed

lemma loop_pool:
  "throttle_ids (pool (loopMultipartParts l t lookup u)) \<subseteq> set (pending_parts t lookup)"
  "rejected (pool (loopMultipartParts l t lookup u)) = []"
  "fulfilled (pool (loopMultipartParts l t lookup u)) = []"
  "responses (loopMultipartParts l t lookup u) = []"
  using submit_all_ids [of l throttle_init "pending_parts t lookup"]
  by (auto simp: loopMultipartParts_def Let_def submit_all_settled throttle_init_def throttle_ids_def)

lemma init_run_inv:
  "run_inv (pending_parts t lookup) (Promise_all (pending_parts t lookup) (loopMultipartParts l t lookup u))"
proof -
  let ?r0 = "loopMultipartParts l t lookup u"
  have "outstanding (pool ?r0) = []" if "collect (pending_parts t lookup) [] = Some a" for a
    using that loop_pool(1) [of l t lookup u]
    by (cases "pending_parts t lookup") (auto simp: outstanding_def filter_empty_conv throttle_ids_def)
  then show ?thesis
    using loop_pool [of l t lookup u]
    by (auto simp: run_inv_def dest!: Promise_all_fulfilled)
qed

lemma run_parts_inv:
  "run_inv (pending_parts t lookup)
     (run_parts l n t' (pending_parts t lookup) evs (loopMultipartParts l t lookup u))"
  unfolding run_parts_def
  by (rule foldl_inv [where P = "run_inv (pending_parts t lookup)"]) (simp_all add: step_run_inv init_run_inv)

subsection \<open>The persisted record during the parts phase\<close>

lemma handler_holds_record:
  assumes "holds_record n rec0 ps0 r"
  shows "holds_record n rec0 ps0 (part_event_handler l n t r e)"
  using assms
  by (cases e)
    (auto simp: holds_record_def Let_def onload_record_def getAndParseLS_cases split: sum.splits)

lemma step_holds_record:
  "holds_record n rec0 ps0 r \<Longrightarrow> holds_record n rec0 ps0 (parts_step l n t arr r e)"
  using handler_holds_record [of n rec0 ps0 r l t e]
  by (simp add: parts_step_def holds_record_def)

lemma run_holds_record:
  assumes "holds_record n rec0 ps0 r0"
  shows "holds_record n rec0 ps0 (run_parts l n t arr evs r0)"
  unfolding run_parts_def
proof (rule foldl_inv [where P = "holds_record n rec0 ps0"])
  show "holds_record n rec0 ps0 (Promise_all arr r0)"
    using assms by (simp add: holds_record_def)
qed (rule step_holds_record)


lemma loop_localStorage [simp]:
  "localStorage (up (loopMultipartParts l t lookup u)) = localStorage u"
  by (simp add: loopMultipartParts_def Let_def)

lemma numParts_pos_partSize:
  assumes "0 < uploadMultipart_numParts opts f"
  shows "uploadMultipart_partSizeInBytes opts f \<noteq> 0"
proof
  assume "uploadMultipart_partSizeInBytes opts f = 0"
  then have "uploadMultipart_numParts opts f = 0"
    by (simp add: uploadMultipart_numParts_def)
  then show False
    using assms by simp
qed

lemma pending_parts_nonempty: "pending_parts t lookup \<noteq> [] \<Longrightarrow> 0 < t"
  by (cases "0 < t") (simp_all add: pending_parts_def)

lemma parts_failed:
  assumes "run_inv arr r" and "rejected (pool r) \<noteq> []"
  shows "aggregate r = AllRejected" and "arr \<noteq> []"
  using assms by (auto simp: run_inv_def)

lemma uploadMultipart_fresh_failed:
  assumes "parts_phase (uploadMultipart_fresh opts env f s) = Some r" and "rejected (pool r) \<noteq> []"
  shows "outcome (uploadMultipart_fresh opts env f s) = Rejected PartsFailed
     \<and> final (uploadMultipart_fresh opts env f s) = up r
     \<and> (\<exists>rec0 ps0. resumable_fields rec0 \<and> holds_record (file_name f) rec0 ps0 r)"
proof -
  let ?n = "uploadMultipart_numParts opts f"
  obtain resp where resp: "create_response env = Inr resp"
    "truthy (created_s3Filename resp)" "truthy (created_uploadId resp)"
    using assms(1)
    by (auto simp: uploadMultipart_fresh_def Let_def throw_error_def split: sum.splits if_splits)
  define rec0 where "rec0 = \<lparr>originalFilename = file_name f, totalFileSizeInBytes = file_size f,
     totalParts = ?n, partSizeInBytes = uploadMultipart_partSizeInBytes opts f,
     finishedParts = Some [], uploadId = created_uploadId resp,
     s3Filename = created_s3Filename resp\<rparr>"
  define s3 where "s3 = (emit (UploadCreated (created_uploadId resp) (created_s3Filename resp))
     (emit UploadStarted (s\<lparr>uploadInProgress := True\<rparr>)))
       \<lparr>localStorage := setLS (localStorage s) (video_key (file_name f)) rec0\<rparr>"
  define r' where "r' = run_parts (concurrencyLimit opts) (file_name f) ?n (pending_parts ?n [])
     (part_events env) (loopMultipartParts (concurrencyLimit opts) ?n [] s3)"
  have flow: "uploadMultipart_fresh opts env f s = await_parts env f r'
     (\<lambda>resolvedArr. \<lparr>complete_uploadId = created_uploadId resp,
         complete_s3Filename = created_s3Filename resp, parts = resolvedArr\<rparr>)"
    using resp by (simp add: uploadMultipart_fresh_def Let_def r'_def s3_def rec0_def)
  then have r: "r = r'"
    using assms(1) by simp
  have inv: "run_inv (pending_parts ?n []) r'"
    unfolding r'_def by (rule run_parts_inv)
  have agg: "aggregate r' = AllRejected" and ne: "pending_parts ?n [] \<noteq> []"
    using parts_failed [OF inv] assms(2) r by simp_all
  have "holds_record (file_name f) rec0 [] (loopMultipartParts (concurrencyLimit opts) ?n [] s3)"
    by (simp add: holds_record_def s3_def loop_pool rec0_def)
  then have hold: "holds_record (file_name f) rec0 [] r'"
    unfolding r'_def by (rule run_holds_record)
  have "0 < ?n"
    using ne by (rule pending_parts_nonempty)
  then have "resumable_fields rec0"
    using resp by (simp add: resumable_fields_def rec0_def numParts_pos_partSize)
  then show ?thesis
    using hold r await_parts_rejected [OF agg] unfolding flow by auto
qed

lemma uploadUnfinishedMultipart_resume_failed:
  assumes "parts_phase (uploadUnfinishedMultipart_resume opts env f localRecord cleaned s) = Some r"
    and "rejected (pool r) \<noteq> []"
    and "localStorage s (video_key (file_name f))
           = Some (Json (localRecord\<lparr>finishedParts := Some cleaned\<rparr>))"
  shows "outcome (uploadUnfinishedMultipart_resume opts env f localRecord cleaned s) = Rejected PartsFailed
     \<and> final (uploadUnfinishedMultipart_resume opts env f localRecord cleaned s) = up r
     \<and> holds_record (file_name f) localRecord cleaned r"
proof -
  let ?lookup = "foldl (\<lambda>obj item. AList.update (PartNumber item) item obj) [] cleaned"
  let ?t = "totalParts localRecord"
  define s2 where "s2 = emit (TotalProgress (Math_round (of_nat (length cleaned) / of_int ?t * 100)))
     (emit (UploadResumed (Math_round (of_nat (length cleaned) / of_int ?t * 100)) localRecord)
        (s\<lparr>partsUploadProgress := foldl (\<lambda>pp part. AList.update (PartNumber part) 100 pp)
              (partsUploadProgress s) cleaned\<rparr>))"
  define r' where "r' = run_parts (concurrencyLimit opts) (file_name f) ?t (pending_parts ?t ?lookup)
     (part_events env) (loopMultipartParts (concurrencyLimit opts) ?t ?lookup s2)"
  have flow: "uploadUnfinishedMultipart_resume opts env f localRecord cleaned s = await_parts env f r'
     (\<lambda>resolvedArr. \<lparr>complete_uploadId = uploadId localRecord,
         complete_s3Filename = s3Filename localRecord,
         parts = sort_key PartNumber (cleaned @ resolvedArr)\<rparr>)"
    by (simp add: uploadUnfinishedMultipart_resume_def Let_def r'_def s2_def)
  then have r: "r = r'"
    using assms(1) by simp
  have inv: "run_inv (pending_parts ?t ?lookup) r'"
    unfolding r'_def by (rule run_parts_inv)
  have agg: "aggregate r' = AllRejected"
    using parts_failed [OF inv] assms(2) r by simp
  have "holds_record (file_name f) localRecord cleaned
          (loopMultipartParts (concurrencyLimit opts) ?t ?lookup s2)"
    using assms(3) by (simp add: holds_record_def s2_def loop_pool)
  then have hold: "holds_record (file_name f) localRecord cleaned r'"
    unfolding r'_def by (rule run_holds_record)
  show ?thesis
    using hold r await_parts_rejected [OF agg] unfolding flow by auto
qed

lemma uploadUnfinishedMultipart_resume_invoked:
  assumes "parts_phase (uploadUnfinishedMultipart_resume opts env f localRecord cleaned s) = Some r"
  shows "set (invoked (pool r)) \<inter> PartNumber ` set cleaned = {}"
proof -
  let ?lookup = "foldl (\<lambda>obj item. AList.update (PartNumber item) item obj) [] cleaned"
  let ?t = "totalParts localRecord"
  obtain u where "r = run_parts (concurrencyLimit opts) (file_name f) ?t (pending_parts ?t ?lookup)
     (part_events env) (loopMultipartParts (concurrencyLimit opts) ?t ?lookup u)"
    using assms by (auto simp: uploadUnfinishedMultipart_resume_def Let_def)
  then have "run_inv (pending_parts ?t ?lookup) r"
    by (simp add: run_parts_inv)
  then have "set (invoked (pool r)) \<subseteq> set (pending_parts ?t ?lookup)"
    by (auto simp: run_inv_def throttle_ids_def)
  then show ?thesis
    using pending_parts_not_finished [of ?t cleaned] by auto
qed

lemma upload_failed:
  assumes "parts_phase (uploadMultipart opts env f s) = Some r" and "rejected (pool r) \<noteq> []"
  shows "outcome (uploadMultipart opts env f s) = Rejected PartsFailed
     \<and> final (uploadMultipart opts env f s) = up r
     \<and> (\<exists>rec0 ps0. resumable_fields rec0 \<and> holds_record (file_name f) rec0 ps0 r)"
proof (cases "has_unfinished s f")
  case False
  then show ?thesis
    using assms uploadMultipart_fresh_failed [of opts env f s r] by (simp add: uploadMultipart_no_record)
next
  case True
  then obtain localRecord ps where rec:
    "localStorage s (video_key (file_name f)) = Some (Json localRecord)"
    "finishedParts localRecord = Some ps" "ps \<noteq> []"
    by (auto simp: has_unfinished_iff)
  show ?thesis
  proof (cases "isCompleteLocalRecord localRecord (cleanUpETags ps)")
    case False
    then show ?thesis
      using assms uploadMultipart_unfinished [OF rec, of opts env]
        uploadMultipart_fresh_failed [of opts env f
          "s\<lparr>localStorage := removeLS (localStorage s) (video_key (file_name f))\<rparr>" r]
      by simp
  next
    case True
    let ?s1 = "s\<lparr>localStorage := setLS (localStorage s) (video_key (file_name f))
                   (localRecord\<lparr>finishedParts := Some (cleanUpETags ps)\<rparr>)\<rparr>"
    have eq: "uploadMultipart opts env f s
                = uploadUnfinishedMultipart_resume opts env f localRecord (cleanUpETags ps) ?s1"
      using True uploadMultipart_unfinished [OF rec, of opts env] by simp
    have "resumable_fields localRecord"
      using True by (simp add: isCompleteLocalRecord_def resumable_fields_def)
    then show ?thesis
      using assms uploadUnfinishedMultipart_resume_failed [of opts env f localRecord "cleanUpETags ps" ?s1 r]
      unfolding eq by auto
  qed
qed

lemma fresh_record:
  assumes "parts_phase (uploadMultipart_fresh opts env f s) = Some r"
  shows "\<exists>rec0. totalParts rec0 = uploadMultipart_numParts opts f
           \<and> holds_record (file_name f) rec0 [] r"
proof -
  let ?n = "uploadMultipart_numParts opts f"
  obtain resp where resp: "create_response env = Inr resp"
    "truthy (created_s3Filename resp)" "truthy (created_uploadId resp)"
    using assms
    by (auto simp: uploadMultipart_fresh_def Let_def throw_error_def split: sum.splits if_splits)
  define rec0 where "rec0 = \<lparr>originalFilename = file_name f, totalFileSizeInBytes = file_size f,
     totalParts = ?n, partSizeInBytes = uploadMultipart_partSizeInBytes opts f,
     finishedParts = Some [], uploadId = created_uploadId resp,
     s3Filename = created_s3Filename resp\<rparr>"
  define s3 where "s3 = (emit (UploadCreated (created_uploadId resp) (created_s3Filename resp))
     (emit UploadStarted (s\<lparr>uploadInProgress := True\<rparr>)))
       \<lparr>localStorage := setLS (localStorage s) (video_key (file_name f)) rec0\<rparr>"
  define r' where "r' = run_parts (concurrencyLimit opts) (file_name f) ?n (pending_parts ?n [])
     (part_events env) (loopMultipartParts (concurrencyLimit opts) ?n [] s3)"
  have "uploadMultipart_fresh opts env f s = await_parts env f r'
     (\<lambda>resolvedArr. \<lparr>complete_uploadId = created_uploadId resp,
         complete_s3Filename = created_s3Filename resp, parts = resolvedArr\<rparr>)"
    using resp by (simp add: uploadMultipart_fresh_def Let_def r'_def s3_def rec0_def)
  then have r: "r = r'"
    using assms by simp
  have "holds_record (file_name f) rec0 [] (loopMultipartParts (concurrencyLimit opts) ?n [] s3)"
    by (simp add: holds_record_def s3_def loop_pool rec0_def)
  then have "holds_record (file_name f) rec0 [] r'"
    unfolding r'_def by (rule run_holds_record)
  moreover have "totalParts rec0 = ?n"
    by (simp add: rec0_def)
  ultimately show ?thesis
    using r by blast
qed

lemma numParts_pos_iff:
  assumes "0 < partMinSizeBytes opts"
  shows "1 \<le> uploadMultipart_numParts opts f \<longleftrightarrow> 0 < file_size f"
proof -
  have pos: "0 < uploadMultipart_partSizeInBytes opts f"
    using assms by (rule partSizeInBytes_pos)
  have "0 < uploadMultipart_numParts opts f
          \<longleftrightarrow> 0 < rat_of_nat (file_size f) / uploadMultipart_partSizeInBytes opts f"
    by (simp add: uploadMultipart_numParts_def)
  also have "\<dots> \<longleftrightarrow> 0 < file_size f"
    using pos by (simp add: zero_less_divide_iff)
  finally show ?thesis
    by linarith
qed

text \<open>
  C4 (as the spec states it: an empty payload still gets one part). The code has no special
  case: for \<open>file.size = 0\<close> the quotient is 0 and so is its ceiling.
\<close>

theorem numParts_empty_file_counterexample:
  "\<not> 1 \<le> uploadMultipart_numParts defaultOptions empty_file"
  by (simp add: uploadMultipart_numParts_def empty_file_def)

text \<open>
  C4 (amended). With a positive \<open>partMinSizeBytes\<close> and a positive \<open>maxNumParts\<close>, part
  planning yields at least one part exactly when the file is not empty, and no part for an
  empty file. The record that the create flow persists carries \<open>totalParts = numParts\<close>
  throughout the parts phase, so it has \<open>totalParts \<ge> 1\<close> exactly for a non-empty file.
\<close>

theorem numParts_pos_iff_nonempty:
  assumes "0 < partMinSizeBytes opts" and "0 < maxNumParts opts"
  shows "(1 \<le> uploadMultipart_numParts opts f \<longleftrightarrow> 0 < file_size f)
     \<and> (file_size f = 0 \<longrightarrow> uploadMultipart_numParts opts f = 0)
     \<and> (parts_phase (uploadMultipart_fresh opts env f s) = Some r \<longrightarrow>
          (\<exists>rec0. localStorage (up r) (video_key (file_name f)) = Some (Json rec0)
             \<and> totalParts rec0 = uploadMultipart_numParts opts f))"
proof -
  have "uploadMultipart_numParts opts f = 0" if "file_size f = 0"
    using that by (simp add: uploadMultipart_numParts_def)
  moreover have "\<exists>rec0. localStorage (up r) (video_key (file_name f)) = Some (Json rec0)
      \<and> totalParts rec0 = uploadMultipart_numParts opts f"
    if "parts_phase (uploadMultipart_fresh opts env f s) = Some r"
    using fresh_record [OF that] by (auto simp: holds_record_def)
  ultimately show ?thesis
    using numParts_pos_iff [OF assms(1)] by blast
qed

theorem numParts_pos_iff_nonempty_witness:
  "0 < partMinSizeBytes two_at_a_time \<and> 0 < maxNumParts two_at_a_time
   \<and> uploadMultipart_numParts two_at_a_time empty_file = 0
   \<and> 1 \<le> uploadMultipart_numParts two_at_a_time three_part_file
   \<and> (\<exists>rec0. localStorage (up (the (parts_phase
          (uploadMultipart_fresh two_at_a_time (backend []) empty_file (new_uploader Map.empty)))))
          (video_key (file_name empty_file)) = Some (Json rec0)
        \<and> totalParts rec0 = 0)"
proof -
  let ?res = "uploadMultipart_fresh two_at_a_time (backend []) empty_file (new_uploader Map.empty)"
  have pre: "0 < partMinSizeBytes two_at_a_time" "0 < maxNumParts two_at_a_time"
    by (simp_all add: two_at_a_time_def)
  have size: "file_size empty_file = 0" "0 < file_size three_part_file"
    by (simp_all add: empty_file_def three_part_file_def)
  have "\<not> Option.is_none (parts_phase ?res)"
    by code_simp
  then have phase: "parts_phase ?res = Some (the (parts_phase ?res))"
    by (cases "parts_phase ?res") simp_all
  have zero: "uploadMultipart_numParts two_at_a_time empty_file = 0"
    using numParts_pos_iff_nonempty [OF pre, of empty_file] size by blast
  have one: "1 \<le> uploadMultipart_numParts two_at_a_time three_part_file"
    using numParts_pos_iff_nonempty [OF pre, of three_part_file] size by blast
  have "\<exists>rec0. localStorage (up (the (parts_phase ?res))) (video_key (file_name empty_file))
          = Some (Json rec0)
        \<and> totalParts rec0 = uploadMultipart_numParts two_at_a_time empty_file"
    using numParts_pos_iff_nonempty [OF pre, of empty_file "backend []" "new_uploader Map.empty"]
      phase by blast
  then show ?thesis
    using pre zero one by simp
qed

subsection \<open>Part numbers stay unique, and the complete call is in order\<close>

lemma Promise_all_responses_inv [simp]:
  "responses_inv arr (Promise_all arr' r) = responses_inv arr r"
  by (simp add: responses_inv_def)










text \<open>
  C8. When a part upload fails after the record was persisted, the upload rejects, and the
  record is still in the store: its finished parts are the ones it had when the parts phase
  began followed by the response of every part upload that succeeded in this attempt,
  also of those that succeeded after the failure. A subsequent attempt therefore launches
  no part that succeeded with a tag.
\<close>

theorem failed_parts_keep_record:
  assumes "parts_phase (uploadMultipart opts env f s) = Some r" and "rejected (pool r) \<noteq> []"
  shows "outcome (uploadMultipart opts env f s) = Rejected PartsFailed
     \<and> (\<exists>rec0 ps0. localStorage (final (uploadMultipart opts env f s)) (video_key (file_name f))
            = Some (Json (rec0\<lparr>finishedParts := Some (ps0 @ responses r)\<rparr>)))
     \<and> (\<forall>env' r'. parts_phase (uploadMultipart opts env' f (final (uploadMultipart opts env f s)))
            = Some r' \<longrightarrow>
          (\<forall>p \<in> set (responses r). truthy (ETag p) \<longrightarrow> PartNumber p \<notin> set (invoked (pool r'))))"
proof -
  let ?res = "uploadMultipart opts env f s"
  obtain rec0 ps0 where out: "outcome ?res = Rejected PartsFailed" and fin: "final ?res = up r"
    and fields: "resumable_fields rec0" and hold: "holds_record (file_name f) rec0 ps0 r"
    using upload_failed [OF assms] by blast
  let ?rec = "rec0\<lparr>finishedParts := Some (ps0 @ responses r)\<rparr>"
  have store: "localStorage (final ?res) (video_key (file_name f)) = Some (Json ?rec)"
    using hold fin by (simp add: holds_record_def)
  have next_attempt: "PartNumber p \<notin> set (invoked (pool r'))"
    if r': "parts_phase (uploadMultipart opts env' f (final ?res)) = Some r'"
      and p: "p \<in> set (responses r)" "truthy (ETag p)" for env' r' p
  proof -
    let ?ps = "ps0 @ responses r"
    have ne: "?ps \<noteq> []"
      using p by auto
    have pc: "p \<in> set (cleanUpETags ?ps)"
      using p by (simp add: cleanUpETags_def)
    then have "isCompleteLocalRecord ?rec (cleanUpETags ?ps)"
      using fields by (auto simp: isCompleteLocalRecord_def resumable_fields_def)
    then have "uploadMultipart opts env' f (final ?res)
        = uploadUnfinishedMultipart_resume opts env' f ?rec (cleanUpETags ?ps)
            ((final ?res)\<lparr>localStorage := setLS (localStorage (final ?res)) (video_key (file_name f))
                 (?rec\<lparr>finishedParts := Some (cleanUpETags ?ps)\<rparr>)\<rparr>)"
      using uploadMultipart_unfinished [OF store _ ne, of opts env'] by simp
    then have "set (invoked (pool r')) \<inter> PartNumber ` set (cleanUpETags ?ps) = {}"
      using r' uploadUnfinishedMultipart_resume_invoked by metis
    then show ?thesis
      using pc by auto
  qed
  show ?thesis
    using out store next_attempt by blast
qed


lemma is_none_the: "\<not> Option.is_none x \<Longrightarrow> x = Some (the x)"
  by (cases x) simp_all

theorem failed_parts_keep_record_witness:
  "rejected (pool (the (parts_phase (uploadMultipart two_at_a_time
       (backend [SignOk 1 ''url-1'', SignOk 2 ''url-2'', Onerror 2, Onload 1 200 (Some ''etag'')])
       three_part_file (new_uploader Map.empty))))) = [2]
   \<and> dropped (pool (the (parts_phase (uploadMultipart two_at_a_time
       (backend [SignOk 1 ''url-1'', SignOk 2 ''url-2'', Onerror 2, Onload 1 200 (Some ''etag'')])
       three_part_file (new_uploader Map.empty))))) = [3]
   \<and> responses (the (parts_phase (uploadMultipart two_at_a_time
       (backend [SignOk 1 ''url-1'', SignOk 2 ''url-2'', Onerror 2, Onload 1 200 (Some ''etag'')])
       three_part_file (new_uploader Map.empty)))) = [tagged 1]
   \<and> outcome (uploadMultipart two_at_a_time
       (backend [SignOk 1 ''url-1'', SignOk 2 ''url-2'', Onerror 2, Onload 1 200 (Some ''etag'')])
       three_part_file (new_uploader Map.empty)) = Rejected PartsFailed
   \<and> (\<exists>rec0 ps0. localStorage (final (uploadMultipart two_at_a_time
       (backend [SignOk 1 ''url-1'', SignOk 2 ''url-2'', Onerror 2, Onload 1 200 (Some ''etag'')])
       three_part_file (new_uploader Map.empty))) (video_key (file_name three_part_file))
         = Some (Json (rec0\<lparr>finishedParts := Some (ps0 @ [tagged 1])\<rparr>)))
   \<and> 1 \<notin> set (invoked (pool (the (parts_phase (uploadMultipart two_at_a_time (backend [])
       three_part_file (final (uploadMultipart two_at_a_time
       (backend [SignOk 1 ''url-1'', SignOk 2 ''url-2'', Onerror 2, Onload 1 200 (Some ''etag'')])
       three_part_file (new_uploader Map.empty))))))))"
proof -
  let ?env = "backend [SignOk 1 ''url-1'', SignOk 2 ''url-2'', Onerror 2, Onload 1 200 (Some ''etag'')]"
  let ?res = "uploadMultipart two_at_a_time ?env three_part_file (new_uploader Map.empty)"
  let ?r = "the (parts_phase ?res)"
  let ?res' = "uploadMultipart two_at_a_time (backend []) three_part_file (final ?res)"
  let ?r' = "the (parts_phase ?res')"
  have "\<not> Option.is_none (parts_phase ?res)"
    by code_simp
  then have h1: "parts_phase ?res = Some ?r"
    by (rule is_none_the)
  have rej: "rejected (pool ?r) = [2]"
    by code_simp
  then have h2: "rejected (pool ?r) \<noteq> []"
    by simp
  have drp: "dropped (pool ?r) = [3]"
    by code_simp
  have resp: "responses ?r = [tagged 1]"
    by code_simp
  have "\<not> Option.is_none (parts_phase ?res')"
    by code_simp
  then have h3: "parts_phase ?res' = Some ?r'"
    by (rule is_none_the)
  have tag: "truthy (ETag (tagged 1))" and num: "PartNumber (tagged 1) = 1"
    by (simp_all add: tagged_def)
  note kept = failed_parts_keep_record [OF h1 h2]
  have "PartNumber (tagged 1) \<notin> set (invoked (pool ?r'))"
    using kept h3 resp tag by auto
  then show ?thesis
    using kept rej drp resp num by simp
qed

subsection \<open>The fallback from an incomplete record, and an incomplete create response\<close>



lemma anr_emit: "\<not> is_UploadResumed e \<Longrightarrow> adds_no_resume u u' \<Longrightarrow> adds_no_resume u (emit e u')"
  by (auto simp: adds_no_resume_def)



lemma onload_record_emitted [simp]: "emitted (onload_record n resp u) = emitted u"
  by (simp add: onload_record_def split: sum.splits option.splits)








lemma isCompleteLocalRecord_fails_iff:
  assumes "0 \<le> partSizeInBytes localRecord"
  shows "\<not> isCompleteLocalRecord localRecord cleaned \<longleftrightarrow>
     \<not> truthy (uploadId localRecord) \<or> \<not> truthy (s3Filename localRecord)
     \<or> totalParts localRecord \<le> 0 \<or> partSizeInBytes localRecord \<le> 0 \<or> cleaned = []"
  using assms by (auto simp: isCompleteLocalRecord_def)



lemma not_resumes:
  assumes "\<not> resumes s f"
  shows "uploadMultipart opts env f s =
     uploadMultipart_fresh opts env f
       (if has_unfinished s f
        then s\<lparr>localStorage := removeLS (localStorage s) (video_key (file_name f))\<rparr> else s)"
proof (cases "has_unfinished s f")
  case False
  then show ?thesis
    by (simp add: uploadMultipart_no_record)
next
  case True
  then obtain localRecord ps where rec:
    "localStorage s (video_key (file_name f)) = Some (Json localRecord)"
    "finishedParts localRecord = Some ps" "ps \<noteq> []"
    by (auto simp: has_unfinished_iff)
  then have "\<not> isCompleteLocalRecord localRecord (cleanUpETags ps)"
    using assms by (simp add: resumes_def)
  then show ?thesis
    using True uploadMultipart_unfinished [OF rec, of opts env] by simp
qed

text \<open>
  C10. If the create call resolves but its response lacks \<open>uploadId\<close> or \<open>s3Filename\<close>,
  \<open>uploadMultipart\<close> emits \<open>uploadStarted\<close>, then \<open>uploadCreated\<close> carrying the values as
  received, then the error, and rejects; it writes no record: the store is as it was when
  the create flow began (the record of a fallback removed, anything else untouched).
\<close>

theorem incomplete_create_response:
  assumes "create_response env = Inr resp"
    and "\<not> truthy (created_uploadId resp) \<or> \<not> truthy (created_s3Filename resp)"
    and "\<not> resumes s f"
  shows "emitted (final (uploadMultipart opts env f s))
           = emitted s @ [UploadStarted,
               UploadCreated (created_uploadId resp) (created_s3Filename resp),
               Error CreateIncomplete]
     \<and> outcome (uploadMultipart opts env f s) = Rejected CreateIncomplete
     \<and> localStorage (final (uploadMultipart opts env f s))
           = (if has_unfinished s f then removeLS (localStorage s) (video_key (file_name f))
              else localStorage s)"
  using assms(1,2) unfolding not_resumes [OF assms(3)]
  by (auto simp: uploadMultipart_fresh_def throw_error_def Let_def)

theorem incomplete_create_response_witness:
  "create_response \<lparr>create_response = Inr \<lparr>created_uploadId = None, created_s3Filename = Some ''key-1''\<rparr>,
       part_events = [], complete_response = Inl CompleteFailed\<rparr>
     = Inr \<lparr>created_uploadId = None, created_s3Filename = Some ''key-1''\<rparr>
   \<and> \<not> truthy (created_uploadId \<lparr>created_uploadId = None, created_s3Filename = Some ''key-1''\<rparr>)
   \<and> \<not> resumes (new_uploader Map.empty) three_part_file
   \<and> emitted (final (uploadMultipart two_at_a_time
         \<lparr>create_response = Inr \<lparr>created_uploadId = None, created_s3Filename = Some ''key-1''\<rparr>,
          part_events = [], complete_response = Inl CompleteFailed\<rparr>
         three_part_file (new_uploader Map.empty)))
       = [UploadStarted, UploadCreated None (Some ''key-1''), Error CreateIncomplete]
   \<and> outcome (uploadMultipart two_at_a_time
         \<lparr>create_response = Inr \<lparr>created_uploadId = None, created_s3Filename = Some ''key-1''\<rparr>,
          part_events = [], complete_response = Inl CompleteFailed\<rparr>
         three_part_file (new_uploader Map.empty))
       = Rejected CreateIncomplete
   \<and> localStorage (final (uploadMultipart two_at_a_time
         \<lparr>create_response = Inr \<lparr>created_uploadId = None, created_s3Filename = Some ''key-1''\<rparr>,
          part_events = [], complete_response = Inl CompleteFailed\<rparr>
         three_part_file (new_uploader Map.empty))) (video_key ''a.mov'')
       = None"
proof -
  let ?resp = "\<lparr>created_uploadId = None, created_s3Filename = Some ''key-1''\<rparr>"
  let ?env = "\<lparr>create_response = Inr ?resp, part_events = [],
               complete_response = Inl CompleteFailed\<rparr>"
  let ?s = "new_uploader Map.empty"
  have h1: "create_response ?env = Inr ?resp"
    by simp
  have h2: "\<not> truthy (created_uploadId ?resp) \<or> \<not> truthy (created_s3Filename ?resp)"
    by simp
  have h3: "\<not> resumes ?s three_part_file"
    by (simp add: resumes_def new_uploader_def)
  have h4: "\<not> has_unfinished ?s three_part_file"
    by (simp add: has_unfinished_iff new_uploader_def)
  show ?thesis
    using incomplete_create_response [OF h1 h2 h3, of two_at_a_time] h3 h4
    by (simp add: new_uploader_def)
qed

subsection \<open>Total progress on a resumed upload\<close>

lemma totalProgress_values_append:
  "totalProgress_values (xs @ ys) = totalProgress_values xs @ totalProgress_values ys"
  by (induction xs rule: totalProgress_values.induct) simp_all

lemma pg_same:
  "emitted u' = emitted u \<Longrightarrow> totalUploadProgress u' = totalUploadProgress u \<Longrightarrow> progress_grows u u'"
  by (simp add: progress_grows_def)

lemma pg_trans:
  assumes "progress_grows u u'" and "progress_grows u' u''"
  shows "progress_grows u u''"
proof -
  obtain xs where xs: "emitted u' = emitted u @ xs" "sorted_wrt (<) (totalProgress_values xs)"
    "\<forall>v \<in> set (totalProgress_values xs). totalUploadProgress u < v \<and> v \<le> totalUploadProgress u'"
    and le1: "totalUploadProgress u \<le> totalUploadProgress u'"
    using assms(1) by (auto simp: progress_grows_def)
  obtain ys where ys: "emitted u'' = emitted u' @ ys" "sorted_wrt (<) (totalProgress_values ys)"
    "\<forall>v \<in> set (totalProgress_values ys). totalUploadProgress u' < v \<and> v \<le> totalUploadProgress u''"
    and le2: "totalUploadProgress u' \<le> totalUploadProgress u''"
    using assms(2) by (auto simp: progress_grows_def)
  have "emitted u'' = emitted u @ (xs @ ys)"
    using xs(1) ys(1) by simp
  moreover have "sorted_wrt (<) (totalProgress_values (xs @ ys))"
    using xs(2,3) ys(2,3) by (fastforce simp: totalProgress_values_append sorted_wrt_append)
  moreover have "\<forall>v \<in> set (totalProgress_values (xs @ ys)).
      totalUploadProgress u < v \<and> v \<le> totalUploadProgress u''"
    using xs(3) ys(3) le1 le2 by (fastforce simp: totalProgress_values_append)
  ultimately show ?thesis
    using le1 le2 unfolding progress_grows_def by (intro conjI exI [of _ "xs @ ys"]) auto
qed

lemma totalProgress_values_other [simp]:
  "\<not> is_TotalProgress e \<Longrightarrow> totalProgress_values (e # es) = totalProgress_values es"
  by (cases e) simp_all

lemma totalProgress_values_none:
  "\<not> list_ex is_TotalProgress es \<Longrightarrow> totalProgress_values es = []"
  by (induction es) simp_all

lemma pg_emit: "\<not> is_TotalProgress e \<Longrightarrow> progress_grows u (emit e u)"
  by (simp add: progress_grows_def)

lemma pg_onprogress: "progress_grows u (onprogress k t ev u)"
  by (simp add: onprogress_def Let_def progress_grows_def)

lemma totalUploadProgress_started [simp]:
  "totalUploadProgress (started a b u) = totalUploadProgress u"
proof -
  have "totalUploadProgress (foldl (\<lambda>u k. emit (UploadPartStarted k) u) u ks) = totalUploadProgress u" for ks
    by (induction ks arbitrary: u) simp_all
  then show ?thesis by (simp add: started_def)
qed

lemma pg_started: "progress_grows u (started a b u)"
  by (simp add: progress_grows_def totalProgress_values_none list_ex_iff image_iff)

lemma onload_record_progress [simp]:
  "totalUploadProgress (onload_record n resp u) = totalUploadProgress u"
  by (simp add: onload_record_def split: sum.splits option.splits)

lemma pg_handler: "progress_grows (up r) (up (part_event_handler l n t r e))"
proof (cases e)
  case (Onload k status eTag)
  have "progress_grows (up r) (onload_record n resp (emit (UploadPartSuccess k) (up r)))" for resp
    by (simp add: progress_grows_def)
  then show ?thesis
    using Onload by (auto simp: Let_def pg_same intro: pg_trans pg_started)
next
  case (Progress k ev)
  then show ?thesis
    by (simp add: pg_onprogress pg_same)
qed (auto simp: progress_grows_def split: sum.splits)

lemma pg_Promise_all: "progress_grows (up r) (up (Promise_all arr r))"
  by (auto simp: Promise_all_def progress_grows_def split: promise_all.splits option.splits)

lemma pg_run: "progress_grows u (up r0) \<Longrightarrow> progress_grows u (up (run_parts l n t arr evs r0))"
  unfolding run_parts_def
proof (rule foldl_inv [where P = "\<lambda>r. progress_grows u (up r)"])
  show "progress_grows u (up (parts_step l n t arr r e))" if "progress_grows u (up r)" for r e
    using that pg_handler [of r l n t e] pg_Promise_all [of "part_event_handler l n t r e" arr]
    unfolding parts_step_def by (blast intro: pg_trans)
  show "progress_grows u (up (Promise_all arr r0))" if "progress_grows u (up r0)"
    using that pg_Promise_all [of r0 arr] by (blast intro: pg_trans)
qed

lemma pg_loop: "progress_grows u (up (loopMultipartParts l t lookup u))"
  by (auto simp: loopMultipartParts_def Let_def progress_grows_def totalProgress_values_none
      list_ex_iff image_iff)

lemma pg_await: "progress_grows (up r) (final (await_parts env f r mk))"
  by (auto simp: await_parts_def uploadMultipartComplete_def throw_error_def reset_def
      progress_grows_def split: promise_all.splits sum.splits)

lemma pg_fresh: "progress_grows s (final (uploadMultipart_fresh opts env f s))"
proof (cases "create_response env")
  case (Inl err)
  then show ?thesis
    by (simp add: uploadMultipart_fresh_def throw_error_def progress_grows_def)
next
  case (Inr resp)
  show ?thesis
  proof (cases "\<not> truthy (created_s3Filename resp) \<or> \<not> truthy (created_uploadId resp)")
    case True
    then show ?thesis
      using Inr by (auto simp: uploadMultipart_fresh_def throw_error_def progress_grows_def)
  next
    case False
    obtain u r mk where flow: "uploadMultipart_fresh opts env f s = await_parts env f r mk"
      and r: "r = run_parts (concurrencyLimit opts) (file_name f) (uploadMultipart_numParts opts f)
           (pending_parts (uploadMultipart_numParts opts f) []) (part_events env)
           (loopMultipartParts (concurrencyLimit opts) (uploadMultipart_numParts opts f) [] u)"
      and u: "emitted u = emitted s @ [UploadStarted, UploadCreated (created_uploadId resp)
                (created_s3Filename resp)]" "totalUploadProgress u = totalUploadProgress s"
      using Inr False by (simp add: uploadMultipart_fresh_def Let_def)
    have "progress_grows s u"
      using u by (simp add: progress_grows_def)
    then have "progress_grows s (up r)"
      unfolding r by (intro pg_run) (blast intro: pg_trans pg_loop)
    then show ?thesis
      unfolding flow using pg_await [of r env f mk] by (blast intro: pg_trans)
  qed
qed

text \<open>
  Where no resume takes place, the percentages that one call of \<open>uploadMultipart\<close> emits are
  strictly increasing: the progress handler emits a percentage only above the last one it
  stored.
\<close>

lemma fresh_progress_increases:
  assumes "\<not> resumes s f"
  shows "sorted_wrt (<) (totalProgress_values
           (drop (length (emitted s)) (emitted (final (uploadMultipart opts env f s)))))"
proof -
  let ?s' = "if has_unfinished s f
        then s\<lparr>localStorage := removeLS (localStorage s) (video_key (file_name f))\<rparr> else s"
  have "progress_grows ?s' (final (uploadMultipart_fresh opts env f ?s'))"
    by (rule pg_fresh)
  moreover have "emitted ?s' = emitted s"
    by simp
  ultimately show ?thesis
    unfolding not_resumes [OF assms] by (auto simp: progress_grows_def)
qed

text \<open>
  C1 (the code departs from the claim). A new instance resumes a three-part upload of
  which parts 1 and 2 are finished. The starting percentage is \<open>Math.round(2 / 3 * 100) = 67\<close>,
  emitted without being stored in \<open>totalUploadProgress\<close>; the first progress event of part 3,
  at 0 percent of that part, gives \<open>Math.floor(200 / 3) = 66\<close>, which exceeds the stored 0
  and is emitted: the percentages on the channel are 67, then 66.
\<close>

theorem resumed_progress_decreases:
  "totalProgress_values (emitted (final (uploadMultipart two_at_a_time
      (backend [SignOk 3 ''url-3'',
                Progress 3 \<lparr>lengthComputable = True, loaded = 1, total = 1000\<rparr>])
      three_part_file
      (new_uploader (store_of (record_of [tagged 1, tagged 2] (Some ''upload-1'')))))))
     = [67, 66]"
  by code_simp

end
